theory Spec2Isabelle
  imports Complex_Main "HOL-Library.AList" "HOL-Library.Multiset"
begin

section \<open>Conventions of the embedding\<close>

text \<open>
  The development embeds the retrieval core of the repository: the tokenizer
  (\<^verbatim>\<open>lib/tokenize.ts\<close>), the BM25 index (\<^verbatim>\<open>lib/bm25.ts\<close>), the chunkers
  (\<^verbatim>\<open>lib/chunk.ts\<close>) and the ingest and rank-fusion parts of the worker.

  \<^item> A JavaScript string is a \<open>string\<close>; every \<open>char\<close> stands for the UTF-16 code unit
    of the same number, so the texts covered are those over U+0000 .. U+00FF. The
    character classes of the regular expressions (\<^verbatim>\<open>\s\<close>, \<^verbatim>\<open>\p{L}\<close>, \<^verbatim>\<open>\p{N}\<close>) and
    \<^verbatim>\<open>toLowerCase\<close> are written out for that range.
  \<^item> A JavaScript \<^verbatim>\<open>Map\<close> is an association list in insertion order:
    \<^verbatim>\<open>get\<close> is \<open>map_of\<close>, \<^verbatim>\<open>set\<close> is \<open>AList.update\<close> (an existing key keeps its
    place, a new key goes to the end), \<^verbatim>\<open>entries()\<close> is the list itself.
  \<^item> Counters, lengths and offsets are \<open>nat\<close>; parameters a caller chooses freely
    (\<^verbatim>\<open>topK\<close>, \<^verbatim>\<open>maxTokens\<close>, \<^verbatim>\<open>overlapTokens\<close>, \<^verbatim>\<open>targetChars\<close>) are \<open>int\<close>.
  \<^item> Scores are \<open>real\<close>: the arithmetic of the source on finite doubles, without
    rounding. A division whose divisor is zero leaves the finite numbers in
    JavaScript (it gives \<^verbatim>\<open>Infinity\<close> or \<^verbatim>\<open>NaN\<close>); the model returns
    \<open>Inl DivisionByZero\<close> at that point instead of a number.
  \<^item> \<^verbatim>\<open>Array.prototype.sort\<close> is stable; with the comparator
    \<^verbatim>\<open>(a, b) => b[1] - a[1]\<close> it is \<open>sort_key\<close> on the negated score.
\<close>

datatype error = DivisionByZero | UndefinedOffset

section \<open>Characters and strings\<close>

definition isSpace :: "char \<Rightarrow> bool" where
  \<comment> \<open>\<^verbatim>\<open>\s\<close>: TAB, LF, VT, FF, CR, SPACE, NBSP\<close>
  "isSpace c = (of_char c \<in> {9, 10, 11, 12, 13, 32, 160 :: nat})"

definition isLetter :: "char \<Rightarrow> bool" where
  \<comment> \<open>\<^verbatim>\<open>\p{L}\<close> below U+0100\<close>
  "isLetter c =
     (let n = (of_char c :: nat) in
      (65 \<le> n \<and> n \<le> 90) \<or> (97 \<le> n \<and> n \<le> 122) \<or> n = 170 \<or> n = 181 \<or> n = 186
      \<or> (192 \<le> n \<and> n \<le> 214) \<or> (216 \<le> n \<and> n \<le> 246) \<or> (248 \<le> n \<and> n \<le> 255))"

definition isNumber :: "char \<Rightarrow> bool" where
  \<comment> \<open>\<^verbatim>\<open>\p{N}\<close> below U+0100\<close>
  "isNumber c =
     (let n = (of_char c :: nat) in
      (48 \<le> n \<and> n \<le> 57) \<or> n = 178 \<or> n = 179 \<or> n = 185 \<or> (188 \<le> n \<and> n \<le> 190))"

definition toLowerChar :: "char \<Rightarrow> char" where
  "toLowerChar c =
     (let n = (of_char c :: nat) in
      if (65 \<le> n \<and> n \<le> 90) \<or> (192 \<le> n \<and> n \<le> 222 \<and> n \<noteq> 215)
      then char_of (n + 32) else c)"

definition toLowerCase :: "string \<Rightarrow> string" where
  "toLowerCase s = map toLowerChar s"

definition trim :: "string \<Rightarrow> string" where
  "trim s = rev (dropWhile isSpace (rev (dropWhile isSpace s)))"

definition endsWith :: "string \<Rightarrow> string \<Rightarrow> bool" where
  "endsWith s suffix = (length suffix \<le> length s \<and> drop (length s - length suffix) s = suffix)"

definition slice :: "'a list \<Rightarrow> nat \<Rightarrow> nat \<Rightarrow> 'a list" where
  \<comment> \<open>\<^verbatim>\<open>s.slice(start, end)\<close> for offsets that are not negative\<close>
  "slice s start end = take (end - start) (drop start s)"

definition sliceTo :: "'a list \<Rightarrow> int \<Rightarrow> 'a list" where
  \<comment> \<open>\<^verbatim>\<open>xs.slice(0, k)\<close>: a negative \<open>k\<close> counts from the end\<close>
  "sliceTo xs k = (if k < 0 then take (nat (int (length xs) + k)) xs else take (nat k) xs)"

definition sliceFrom :: "'a list \<Rightarrow> int \<Rightarrow> 'a list" where
  \<comment> \<open>\<^verbatim>\<open>xs.slice(k)\<close>: a negative \<open>k\<close> counts from the end\<close>
  "sliceFrom xs k = (if k < 0 then drop (nat (int (length xs) + k)) xs else drop (nat k) xs)"

fun join :: "string \<Rightarrow> string list \<Rightarrow> string" where
  "join sep [] = []"
| "join sep [x] = x"
| "join sep (x # y # ys) = x @ sep @ join sep (y # ys)"

function showNat :: "nat \<Rightarrow> string" where
  "showNat n =
     (if n < 10 then [char_of (48 + n)] else showNat (n div 10) @ [char_of (48 + n mod 10)])"
  by pat_completeness auto
termination
  by (relation "measure id") auto

declare showNat.simps [simp del]

function splitWs :: "string \<Rightarrow> string list" where
  \<comment> \<open>\<^verbatim>\<open>s.split(/\s+/)\<close>\<close>
  "splitWs s =
     (if dropWhile (\<lambda>c. \<not> isSpace c) s = [] then [takeWhile (\<lambda>c. \<not> isSpace c) s]
      else takeWhile (\<lambda>c. \<not> isSpace c) s
             # splitWs (dropWhile isSpace (dropWhile (\<lambda>c. \<not> isSpace c) s)))"
  by pat_completeness auto
termination
proof (relation "measure length", goal_cases)
  case 1
  show ?case by simp
next
  case (2 s)
  then have ne: "dropWhile (\<lambda>c. \<not> isSpace c) s \<noteq> []"
    by simp
  then obtain x xs where r: "dropWhile (\<lambda>c. \<not> isSpace c) s = x # xs"
    by (cases "dropWhile (\<lambda>c. \<not> isSpace c) s") auto
  have "isSpace x"
    using hd_dropWhile[OF ne] r by simp
  then have "length (dropWhile isSpace (x # xs)) \<le> length xs"
    by (simp add: length_dropWhile_le)
  also have "length xs < length (x # xs)"
    by simp
  also have "length (x # xs) \<le> length s"
    using length_dropWhile_le[of "\<lambda>c. \<not> isSpace c" s] r by simp
  finally show ?case
    using r by simp
qed

declare splitWs.simps [simp del]

section \<open>Tokenizer\<close>

definition DEFAULT_STOPWORDS :: "string list" where
  "DEFAULT_STOPWORDS =
     [''a'', ''an'', ''and'', ''are'', ''as'', ''at'', ''be'', ''but'', ''by'', ''for'', ''if'',
      ''in'', ''into'', ''is'', ''it'', ''no'', ''not'', ''of'', ''on'', ''or'', ''such'', ''that'',
      ''the'', ''their'', ''then'', ''there'', ''these'', ''they'', ''this'', ''to'', ''was'',
      ''will'', ''with'']"

definition tokenizeWith :: "bool \<Rightarrow> bool \<Rightarrow> string \<Rightarrow> string list" where
  "tokenizeWith toLower removeStopwords text =
     (let normalized = (if toLower then toLowerCase text else text);
          tokens = filter (\<lambda>t. t \<noteq> [])
                     (splitWs (map (\<lambda>c. if isLetter c \<or> isNumber c \<or> isSpace c then c else CHR '' '')
                                   normalized))
      in if \<not> removeStopwords then tokens
         else filter (\<lambda>t. t \<notin> set DEFAULT_STOPWORDS) tokens)"

definition tokenize :: "string \<Rightarrow> string list" where
  \<comment> \<open>the call with the default options, the only one the repository makes\<close>
  "tokenize text = tokenizeWith True True text"

section \<open>BM25 index\<close>

record BM25Doc =
  doc_id :: string
  doc_text :: string

record Posting =
  docId :: string
  tf :: nat

record BM25Index =
  bm_k1 :: real
  bm_b :: real
  vocab :: "(string \<times> Posting list) list"
  docLengths :: "(string \<times> nat) list"
  totalDocs :: nat
  totalDocLength :: nat

definition newBM25Index :: BM25Index where
  "newBM25Index =
     \<lparr>bm_k1 = 12 / 10, bm_b = 75 / 100, vocab = [], docLengths = [],
      totalDocs = 0, totalDocLength = 0\<rparr>"

definition tfMapOf :: "string list \<Rightarrow> (string \<times> nat) list" where
  "tfMapOf tokens =
     foldl (\<lambda>tfMap t. AList.update t ((case map_of tfMap t of None \<Rightarrow> 0 | Some n \<Rightarrow> n) + 1) tfMap)
           [] tokens"

definition addPosting ::
  "string \<Rightarrow> (string \<times> Posting list) list \<Rightarrow> string \<times> nat \<Rightarrow> (string \<times> Posting list) list" where
  "addPosting d voc e =
     (let postings = (case map_of voc (fst e) of None \<Rightarrow> [] | Some ps \<Rightarrow> ps)
      in AList.update (fst e) (postings @ [\<lparr>docId = d, tf = snd e\<rparr>]) voc)"

definition addDocument :: "BM25Index \<Rightarrow> BM25Doc \<Rightarrow> BM25Index" where
  \<comment> \<open>one round of the loop of \<^verbatim>\<open>addDocuments\<close>\<close>
  "addDocument idx doc =
     (let tokens = tokenize (doc_text doc)
      in idx\<lparr>totalDocs := totalDocs idx + 1,
             totalDocLength := totalDocLength idx + length tokens,
             docLengths := AList.update (doc_id doc) (length tokens) (docLengths idx),
             vocab := foldl (addPosting (doc_id doc)) (vocab idx) (tfMapOf tokens)\<rparr>)"

definition addDocuments :: "BM25Index \<Rightarrow> BM25Doc list \<Rightarrow> BM25Index" where
  "addDocuments idx docs = foldl addDocument idx docs"

definition avgDocLen :: "BM25Index \<Rightarrow> real" where
  "avgDocLen idx =
     (if totalDocs idx \<noteq> 0 then real (totalDocLength idx) / real (totalDocs idx) else 0)"

definition postingScore :: "BM25Index \<Rightarrow> real \<Rightarrow> real \<Rightarrow> Posting \<Rightarrow> error + real" where
  "postingScore idx avgdl idf p =
     (let dl = real (case map_of (docLengths idx) (docId p) of None \<Rightarrow> 0 | Some l \<Rightarrow> l)
      in if avgdl = 0 then Inl DivisionByZero
         else let denom = real (tf p) + bm_k1 idx * (1 - bm_b idx + (bm_b idx * dl) / avgdl)
              in if denom = 0 then Inl DivisionByZero
                 else Inr (idf * ((real (tf p) * (bm_k1 idx + 1)) / denom)))"

fun scorePostings ::
  "BM25Index \<Rightarrow> real \<Rightarrow> real \<Rightarrow> Posting list \<Rightarrow> (string \<times> real) list
     \<Rightarrow> error + (string \<times> real) list" where
  "scorePostings idx avgdl idf [] scores = Inr scores"
| "scorePostings idx avgdl idf (p # ps) scores =
     (case postingScore idx avgdl idf p of
        Inl e \<Rightarrow> Inl e
      | Inr score \<Rightarrow>
          scorePostings idx avgdl idf ps
            (AList.update (docId p)
               ((case map_of scores (docId p) of None \<Rightarrow> 0 | Some s \<Rightarrow> s) + score) scores))"

definition idfOf :: "nat \<Rightarrow> nat \<Rightarrow> real" where
  "idfOf N n_qi = ln (1 + (real N - real n_qi + 5 / 10) / (real n_qi + 5 / 10))"

fun scoreTerms ::
  "BM25Index \<Rightarrow> string list \<Rightarrow> (string \<times> real) list \<Rightarrow> error + (string \<times> real) list" where
  "scoreTerms idx [] scores = Inr scores"
| "scoreTerms idx (term # qTokens) scores =
     (case map_of (vocab idx) term of
        None \<Rightarrow> scoreTerms idx qTokens scores
      | Some postings \<Rightarrow>
          (case scorePostings idx (avgDocLen idx) (idfOf (totalDocs idx) (length postings))
                  postings scores of
             Inl e \<Rightarrow> Inl e
           | Inr scores' \<Rightarrow> scoreTerms idx qTokens scores'))"

definition sortByScoreDesc :: "(string \<times> real) list \<Rightarrow> (string \<times> real) list" where
  "sortByScoreDesc entries = sort_key (\<lambda>e. - snd e) entries"

definition search :: "BM25Index \<Rightarrow> string \<Rightarrow> int \<Rightarrow> error + (string \<times> real) list" where
  "search idx query topK =
     (case scoreTerms idx (tokenize query) [] of
        Inl e \<Rightarrow> Inl e
      | Inr scores \<Rightarrow> Inr (sliceTo (sortByScoreDesc scores) topK))"

record BM25Json =
  json_k1 :: real
  json_b :: real
  json_totalDocs :: nat
  json_totalDocLength :: nat
  json_docLengths :: "(string \<times> nat) list"
  json_vocab :: "(string \<times> Posting list) list"

definition copyPostings :: "string \<times> Posting list \<Rightarrow> string \<times> Posting list" where
  "copyPostings e = (fst e, map (\<lambda>p. \<lparr>docId = docId p, tf = tf p\<rparr>) (snd e))"

definition serialize :: "BM25Index \<Rightarrow> BM25Json" where
  "serialize idx =
     \<lparr>json_k1 = bm_k1 idx, json_b = bm_b idx, json_totalDocs = totalDocs idx,
      json_totalDocLength = totalDocLength idx, json_docLengths = docLengths idx,
      json_vocab = map copyPostings (vocab idx)\<rparr>"

definition newMap :: "('k \<times> 'v) list \<Rightarrow> ('k \<times> 'v) list" where
  \<comment> \<open>\<^verbatim>\<open>new Map(entries)\<close>: the entries are set one after the other\<close>
  "newMap entries = foldl (\<lambda>m e. AList.update (fst e) (snd e) m) [] entries"

definition fromJSON :: "BM25Json \<Rightarrow> BM25Index" where
  "fromJSON data =
     newBM25Index\<lparr>bm_k1 := json_k1 data, bm_b := json_b data,
                  totalDocs := json_totalDocs data,
                  totalDocLength := json_totalDocLength data,
                  docLengths := newMap (json_docLengths data),
                  vocab := newMap (map copyPostings (json_vocab data))\<rparr>"

section \<open>Chunkers\<close>

record Chunk =
  chunk_id :: string
  chunk_docId :: string
  chunk_text :: string
  charStart :: nat
  charEnd :: nat

definition mkChunk :: "string \<Rightarrow> string \<Rightarrow> nat \<Rightarrow> nat \<Rightarrow> Chunk" where
  \<comment> \<open>the object every chunker pushes; its id is the template \<^verbatim>\<open>${docId}:${start}-${end}\<close>\<close>
  "mkChunk d piece s e =
     \<lparr>chunk_id = d @ '':'' @ showNat s @ ''-'' @ showNat e, chunk_docId = d,
      chunk_text = piece, charStart = s, charEnd = e\<rparr>"

function matchAllNonSpace :: "nat \<Rightarrow> string \<Rightarrow> (nat \<times> string) list" where
  \<comment> \<open>the matches of \<^verbatim>\<open>/\S+/g\<close> in a text whose first character has index \<open>i\<close>,
      each with its index\<close>
  "matchAllNonSpace i s =
     (if dropWhile isSpace s = [] then []
      else (i + length (takeWhile isSpace s),
            takeWhile (\<lambda>c. \<not> isSpace c) (dropWhile isSpace s))
           # matchAllNonSpace
               (i + length (takeWhile isSpace s)
                  + length (takeWhile (\<lambda>c. \<not> isSpace c) (dropWhile isSpace s)))
               (dropWhile (\<lambda>c. \<not> isSpace c) (dropWhile isSpace s)))"
  by pat_completeness auto
termination
proof (relation "measure (\<lambda>(i, s). length s)", goal_cases)
  case 1
  show ?case by simp
next
  case (2 i s)
  then have ne: "dropWhile isSpace s \<noteq> []"
    by simp
  then obtain x xs where r: "dropWhile isSpace s = x # xs"
    by (cases "dropWhile isSpace s") auto
  have "\<not> isSpace x"
    using hd_dropWhile[OF ne] r by simp
  then have "length (dropWhile (\<lambda>c. \<not> isSpace c) (x # xs)) \<le> length xs"
    by (simp add: length_dropWhile_le)
  also have "length xs < length (x # xs)"
    by simp
  also have "length (x # xs) \<le> length s"
    using length_dropWhile_le[of isSpace s] r by simp
  finally show ?case
    using r by simp
qed

declare matchAllNonSpace.simps [simp del]

function chunkByTokensLoop ::
  "string \<Rightarrow> string \<Rightarrow> int \<Rightarrow> int \<Rightarrow> nat list \<Rightarrow> nat list \<Rightarrow> nat \<Rightarrow> nat \<Rightarrow> Chunk list
     \<Rightarrow> error + Chunk list" where
  \<comment> \<open>the \<^verbatim>\<open>for\<close> loop of \<^verbatim>\<open>chunkByTokens\<close>; \<open>n\<close> is \<^verbatim>\<open>tokenMatches.length\<close>.
      Where the source reads \<^verbatim>\<open>tokenEnds[tEnd - 1]\<close> at a negative index it gets
      \<^verbatim>\<open>undefined\<close> for a character offset: \<open>Inl UndefinedOffset\<close>.\<close>
  "chunkByTokensLoop text d maxTokens overlapTokens tokenStarts tokenEnds n tStart chunks =
     (if tStart < n then
        (let tEnd = min (int tStart + maxTokens) (int n) in
         if tEnd - 1 < 0 then Inl UndefinedOffset
         else
           (let cStart = tokenStarts ! tStart;
                cEnd = tokenEnds ! nat (tEnd - 1);
                chunks' = chunks @ [mkChunk d (slice text cStart cEnd) cStart cEnd]
            in if tEnd = int n then Inr chunks'
               else chunkByTokensLoop text d maxTokens overlapTokens tokenStarts tokenEnds n
                      (tStart + nat (max 1 (maxTokens - max 0 overlapTokens))) chunks'))
      else Inr chunks)"
  by pat_completeness auto
termination
  by (relation "measure (\<lambda>(text, d, maxTokens, overlapTokens, tokenStarts, tokenEnds, n, tStart, chunks).
                            n - tStart)") auto

declare chunkByTokensLoop.simps [simp del]

definition chunkByTokens :: "string \<Rightarrow> string \<Rightarrow> int \<Rightarrow> int \<Rightarrow> error + Chunk list" where
  "chunkByTokens text d maxTokens overlapTokens =
     (let tokenMatches = matchAllNonSpace 0 text in
      if length tokenMatches = 0 then Inr []
      else chunkByTokensLoop text d maxTokens overlapTokens
             (map fst tokenMatches) (map (\<lambda>m. fst m + length (snd m)) tokenMatches)
             (length tokenMatches) 0 [])"

record Part =
  p_start :: nat
  p_end :: nat
  p_text :: string

function execBlankRun :: "string \<Rightarrow> nat \<Rightarrow> (nat \<times> nat) option" where
  \<comment> \<open>\<^verbatim>\<open>/\n{2,}/g.exec(text)\<close> with \<^verbatim>\<open>lastIndex = i\<close>: index and length of the
      next run of two or more line feeds\<close>
  "execBlankRun text i =
     (if length text < i + 2 then None
      else if text ! i = CHR 0x0A \<and> text ! (i + 1) = CHR 0x0A
           then Some (i, length (takeWhile (\<lambda>c. c = CHR 0x0A) (drop i text)))
           else execBlankRun text (i + 1))"
  by pat_completeness auto
termination
  by (relation "measure (\<lambda>(text, i). length text - i)") auto

declare execBlankRun.simps [simp del]

function splitParagraphsLoop :: "string \<Rightarrow> nat \<Rightarrow> Part list \<Rightarrow> nat \<times> Part list" where
  "splitParagraphsLoop text idx parts =
     (case execBlankRun text idx of
        None \<Rightarrow> (idx, parts)
      | Some m \<Rightarrow>
          splitParagraphsLoop text (fst m + snd m)
            (parts @ [\<lparr>p_start = idx, p_end = fst m, p_text = slice text idx (fst m)\<rparr>]))"
  by pat_completeness auto
termination
proof (relation "measure (\<lambda>(text, idx, parts). length text - idx)", goal_cases)
  case 1
  show ?case by simp
next
  case (2 s idx parts m)
  have run: "execBlankRun t i = Some r \<Longrightarrow> i < fst r + snd r \<and> i < length t" for t i r
  proof (induction t i rule: execBlankRun.induct)
    case (1 t i)
    note eq = execBlankRun.simps[of t i]
    have len: "i + 2 \<le> length t"
      using "1.prems" by (simp add: eq split: if_splits)
    show ?case
    proof (cases "t ! i = CHR 0x0A \<and> t ! (i + 1) = CHR 0x0A")
      case True
      have "drop i t = t ! i # drop (Suc i) t"
        using len by (simp add: Cons_nth_drop_Suc)
      then have "0 < length (takeWhile (\<lambda>c. c = CHR 0x0A) (drop i t))"
        using True by simp
      then show ?thesis
        using "1.prems" True len by (auto simp: eq split: if_splits)
    next
      case False
      then have "execBlankRun t (i + 1) = Some r"
        using "1.prems" len by (simp add: eq split: if_splits)
      then have "i + 1 < fst r + snd r \<and> i + 1 < length t"
        using "1.IH" False len by simp
      then show ?thesis
        by simp
    qed
  qed
  show ?case
    using run[OF 2] by auto
qed

declare splitParagraphsLoop.simps [simp del]

definition splitParagraphs :: "string \<Rightarrow> Part list" where
  "splitParagraphs text =
     (let r = splitParagraphsLoop text 0 [];
          idx = fst r;
          parts = (if idx \<le> length text
                   then snd r @ [\<lparr>p_start = idx, p_end = length text, p_text = drop idx text\<rparr>]
                   else snd r)
      in filter (\<lambda>p. length (trim (p_text p)) > 0) parts)"

definition isLineTerminator :: "char \<Rightarrow> bool" where
  "isLineTerminator c = (c = CHR 0x0A \<or> c = CHR 0x0D)"

definition headingAt :: "string \<Rightarrow> nat \<Rightarrow> bool" where
  \<comment> \<open>\<^verbatim>\<open>/^#{1,6} .*$/m\<close> matches at index \<open>i\<close>: \<open>i\<close> starts a line, the line starts
      with one to six \<^verbatim>\<open>#\<close> and a space follows them; the match runs to the end of
      the line\<close>
  "headingAt text i =
     ((i = 0 \<or> isLineTerminator (text ! (i - 1)))
      \<and> (let h = length (takeWhile (\<lambda>c. c = CHR ''#'') (drop i text))
         in 1 \<le> h \<and> h \<le> 6 \<and> i + h < length text \<and> text ! (i + h) = CHR '' ''))"

definition headingIndices :: "string \<Rightarrow> nat list" where
  \<comment> \<open>the \<^verbatim>\<open>m.index\<close> of the successive \<^verbatim>\<open>re.exec(text)\<close>: a match ends at the end
      of its line, so the matches are exactly the line starts at which the
      expression matches\<close>
  "headingIndices text = filter (headingAt text) [0..<length text]"

definition splitByHeadings :: "string \<Rightarrow> Part list" where
  "splitByHeadings text =
     (let indices = [0] @ headingIndices text @ [length text]
      in map (\<lambda>i. \<lparr>p_start = indices ! i, p_end = indices ! (i + 1),
                    p_text = slice text (indices ! i) (indices ! (i + 1))\<rparr>)
             [0..<length indices - 1])"

record PackState =
  chunks :: "Chunk list"
  accText :: string
  accStart :: nat
  lastEnd :: nat

definition flushOrAccumulate :: "string \<Rightarrow> int \<Rightarrow> PackState \<Rightarrow> string \<Rightarrow> nat \<Rightarrow> nat \<Rightarrow> PackState" where
  "flushOrAccumulate d targetChars st unit s e =
     (if int (length (accText st @ unit)) \<ge> targetChars \<and> accText st \<noteq> []
      then st\<lparr>chunks := chunks st @ [mkChunk d (trim (accText st)) (accStart st) (lastEnd st)],
              accText := unit, accStart := s, lastEnd := e\<rparr>
      else st\<lparr>accStart := (if accText st = [] then s else accStart st),
              accText := accText st @ (if accText st \<noteq> [] then [CHR 0x0A, CHR 0x0A] else []) @ unit,
              lastEnd := e\<rparr>)"

definition appendSentence :: "string \<Rightarrow> string \<Rightarrow> string" where
  \<comment> \<open>\<^verbatim>\<open>(accText ? accText + (accText.endsWith("\n") ? "" : " ") : "") + s.segment\<close>\<close>
  "appendSentence acc seg =
     (if acc \<noteq> [] then acc @ (if endsWith acc [CHR 0x0A] then [] else '' '') else []) @ seg"

definition sentenceStep ::
  "string \<Rightarrow> int \<Rightarrow> int \<Rightarrow> nat \<Rightarrow> PackState \<times> string list \<Rightarrow> string \<times> nat
     \<Rightarrow> PackState \<times> string list" where
  \<comment> \<open>one round of the loop over the sentences of a paragraph; a sentence is the pair
      of its \<^verbatim>\<open>segment\<close> and its \<^verbatim>\<open>index\<close>, the second component of the state is
      \<^verbatim>\<open>overlapQueue\<close>\<close>
  "sentenceStep d targetChars sentenceOverlap pStart sq s =
     (let st = fst sq; overlapQueue = snd sq;
          sStart = pStart + snd s;
          sEnd = sStart + length (fst s);
          candidate = appendSentence (accText st) (fst s);
          st1 = (if int (length candidate) \<ge> targetChars \<and> accText st \<noteq> []
                 then st\<lparr>chunks := chunks st
                                     @ [mkChunk d (trim (accText st)) (accStart st) (lastEnd st)],
                         accText := join '' '' (sliceFrom overlapQueue (- sentenceOverlap)),
                         accStart := lastEnd st\<rparr>
                 else st);
          st2 = (if accText st1 = [] then st1\<lparr>accStart := sStart\<rparr> else st1)
      in (st2\<lparr>accText := appendSentence (accText st2) (fst s), lastEnd := sEnd\<rparr>,
          overlapQueue @ [fst s]))"

definition paragraphStep ::
  "(string \<Rightarrow> (string \<times> nat) list) option \<Rightarrow> string \<Rightarrow> int \<Rightarrow> int \<Rightarrow> PackState \<Rightarrow> Part
     \<Rightarrow> PackState" where
  \<comment> \<open>one round of the loop over the paragraphs. The first argument is
      \<^verbatim>\<open>Intl.Segmenter\<close> with sentence granularity, which the runtime provides or not:
      \<open>None\<close> where it is undefined, else the function from a text to its segments.\<close>
  "paragraphStep seg d targetChars sentenceOverlap st p =
     (case seg of
        None \<Rightarrow> flushOrAccumulate d targetChars st (p_text p) (p_start p) (p_end p)
      | Some segment \<Rightarrow>
          (let st' = fst (foldl (sentenceStep d targetChars sentenceOverlap (p_start p))
                            (st, []) (segment (p_text p)))
           in if int (length (accText st')) \<ge> targetChars
              then st'\<lparr>chunks := chunks st'
                                    @ [mkChunk d (trim (accText st')) (accStart st') (lastEnd st')],
                       accText := []\<rparr>
              else st'))"

definition chunkBySentencesParagraphs ::
  "(string \<Rightarrow> (string \<times> nat) list) option \<Rightarrow> string \<Rightarrow> string \<Rightarrow> int \<Rightarrow> int \<Rightarrow> Chunk list" where
  "chunkBySentencesParagraphs seg text d targetChars sentenceOverlap =
     (let st = foldl (paragraphStep seg d targetChars sentenceOverlap)
                 \<lparr>chunks = [], accText = [], accStart = 0, lastEnd = 0\<rparr> (splitParagraphs text)
      in if accText st \<noteq> []
         then chunks st @ [mkChunk d (trim (accText st)) (accStart st) (lastEnd st)]
         else chunks st)"

record SectionState =
  sec_chunks :: "Chunk list"
  buffer :: string
  bufStart :: nat
  sec_lastEnd :: nat

definition recursiveStep ::
  "(string \<Rightarrow> (string \<times> nat) list) option \<Rightarrow> string \<Rightarrow> int \<Rightarrow> SectionState \<Rightarrow> Part
     \<Rightarrow> SectionState" where
  \<comment> \<open>one round of the loop over the paragraphs of a section\<close>
  "recursiveStep seg d targetChars st p =
     (let st1 = (if int (length (buffer st @ p_text p)) > targetChars \<and> buffer st \<noteq> []
                 then st\<lparr>sec_chunks := sec_chunks st
                                         @ [mkChunk d (trim (buffer st)) (bufStart st) (sec_lastEnd st)],
                         buffer := p_text p, bufStart := p_start p, sec_lastEnd := p_end p\<rparr>
                 else st\<lparr>bufStart := (if buffer st = [] then p_start p else bufStart st),
                         buffer := buffer st @ (if buffer st \<noteq> [] then [CHR 0x0A, CHR 0x0A] else [])
                                     @ p_text p,
                         sec_lastEnd := p_end p\<rparr>)
      in if real (length (p_text p)) > real_of_int targetChars * (15 / 10)
         then st1\<lparr>sec_chunks := sec_chunks st1
                                  @ chunkBySentencesParagraphs seg (p_text p) d targetChars 0,
                  buffer := []\<rparr>
         else st1)"

definition sectionStep ::
  "(string \<Rightarrow> (string \<times> nat) list) option \<Rightarrow> string \<Rightarrow> int \<Rightarrow> Chunk list \<Rightarrow> Part \<Rightarrow> Chunk list" where
  \<comment> \<open>one round of the loop over the sections\<close>
  "sectionStep seg d targetChars cs sec =
     (let st = foldl (recursiveStep seg d targetChars)
                 \<lparr>sec_chunks = cs, buffer = [], bufStart = p_start sec, sec_lastEnd = p_start sec\<rparr>
                 (splitParagraphs (p_text sec))
      in if buffer st \<noteq> []
         then sec_chunks st @ [mkChunk d (trim (buffer st)) (bufStart st) (sec_lastEnd st)]
         else sec_chunks st)"

definition chunkRecursive ::
  "(string \<Rightarrow> (string \<times> nat) list) option \<Rightarrow> string \<Rightarrow> string \<Rightarrow> int \<Rightarrow> Chunk list" where
  "chunkRecursive seg text d targetChars =
     foldl (sectionStep seg d targetChars) [] (splitByHeadings text)"


section \<open>Worker: ingest and search\<close>

text \<open>
  The worker keeps one index, one map from chunk ids to chunks and one map from chunk
  ids to embedding vectors. Everything it gets from outside is a field of \<open>Env\<close>: the
  sentence segmenter of the runtime, the outcome of loading the embedding model, and
  the outcome of each call of \<^verbatim>\<open>embedTexts\<close>. A handler is modelled as one step from
  worker state to worker state, the messages it posts appended to \<open>posted\<close>; the
  suspension points of the asynchronous source are not modelled.
\<close>

datatype Retrieval = Sparse | Dense | Hybrid

datatype ChunkingMethod =
    FixedTokens int
  | SlidingTokens int int
  | SentParagraph int "int option"
  | Recursive int

record IngestFile =
  f_path :: string
  f_text :: string

datatype RAGWorkerResponse =
    Ingested nat nat
  | SearchResults "(Chunk option \<times> real) list"
  | EmbedderLoading
  | EmbedderReady
  | EmbedderFailed string
  | EmbeddingStarted nat
  | EmbeddingsBuilt nat

record Env =
  segmenter :: "(string \<Rightarrow> (string \<times> nat) list) option"
  loadEmbedder :: "string option"
  embedTexts :: "nat \<Rightarrow> string list \<Rightarrow> real list list option"

text \<open>
  \<open>loadEmbedder\<close> is \<open>None\<close> when the model loads and \<open>Some msg\<close> when loading throws,
  \<open>msg\<close> being the text \<^verbatim>\<open>${err.name}: ${err.message}\<close>. \<open>embedTexts env i texts\<close> is
  the outcome of the call made for the batch that starts at chunk \<open>i\<close>: \<open>None\<close> when it
  throws, else the vectors. \<open>embedderReady\<close> is \<open>None\<close> while no promise exists,
  \<open>Some None\<close> for a fulfilled and \<open>Some (Some msg)\<close> for a rejected promise.
\<close>

record Worker =
  bm25 :: BM25Index
  chunkIdToChunk :: "(string \<times> Chunk) list"
  embeddingsByChunkId :: "(string \<times> real list option) list"
  embedderReady :: "string option option"
  posted :: "RAGWorkerResponse list"

definition newWorker :: Worker where
  "newWorker =
     \<lparr>bm25 = newBM25Index, chunkIdToChunk = [], embeddingsByChunkId = [],
      embedderReady = None, posted = []\<rparr>"

definition postMessage :: "RAGWorkerResponse \<Rightarrow> Worker \<Rightarrow> Worker" where
  "postMessage m w = w\<lparr>posted := posted w @ [m]\<rparr>"

definition chunkFile ::
  "(string \<Rightarrow> (string \<times> nat) list) option \<Rightarrow> ChunkingMethod option \<Rightarrow> IngestFile
     \<Rightarrow> error + Chunk list" where
  \<comment> \<open>\<^verbatim>\<open>docChunks\<close> in \<^verbatim>\<open>parseAndChunk\<close>\<close>
  "chunkFile seg method f =
     (case method of
        None \<Rightarrow> chunkByTokens (f_text f) (f_path f) 200 0
      | Some (FixedTokens maxTokens) \<Rightarrow> chunkByTokens (f_text f) (f_path f) maxTokens 0
      | Some (SlidingTokens maxTokens overlapTokens) \<Rightarrow>
          chunkByTokens (f_text f) (f_path f) maxTokens overlapTokens
      | Some (SentParagraph targetChars sentenceOverlap) \<Rightarrow>
          Inr (chunkBySentencesParagraphs seg (f_text f) (f_path f) targetChars
                 (case sentenceOverlap of None \<Rightarrow> 0 | Some k \<Rightarrow> k))
      | Some (Recursive targetChars) \<Rightarrow> Inr (chunkRecursive seg (f_text f) (f_path f) targetChars))"

fun parseAndChunk ::
  "(string \<Rightarrow> (string \<times> nat) list) option \<Rightarrow> IngestFile list \<Rightarrow> ChunkingMethod option
     \<Rightarrow> error + Chunk list" where
  "parseAndChunk seg [] method = Inr []"
| "parseAndChunk seg (f # files) method =
     (case chunkFile seg method f of
        Inl e \<Rightarrow> Inl e
      | Inr docChunks \<Rightarrow>
          (case parseAndChunk seg files method of
             Inl e \<Rightarrow> Inl e
           | Inr rest \<Rightarrow> Inr (docChunks @ rest)))"

definition docOfChunk :: "Chunk \<Rightarrow> BM25Doc" where
  "docOfChunk c = \<lparr>doc_id = chunk_id c, doc_text = chunk_text c\<rparr>"

definition buildBM25 :: "Chunk list \<Rightarrow> Worker \<Rightarrow> Worker" where
  "buildBM25 cs w = w\<lparr>bm25 := addDocuments (bm25 w) (map docOfChunk cs)\<rparr>"

definition ensureEmbedder :: "Env \<Rightarrow> Worker \<Rightarrow> Worker" where
  "ensureEmbedder env w =
     (case embedderReady w of
        Some r \<Rightarrow> w
      | None \<Rightarrow> w\<lparr>embedderReady := Some (loadEmbedder env)\<rparr>)"

definition storeBatch ::
  "Chunk list \<Rightarrow> real list list \<Rightarrow> (string \<times> real list option) list
     \<Rightarrow> (string \<times> real list option) list" where
  \<comment> \<open>the loop \<^verbatim>\<open>embeddingsByChunkId.set(batch[j].id, batchVecs[j])\<close>; a vector the
      provider did not return is \<^verbatim>\<open>undefined\<close>, here \<open>None\<close>\<close>
  "storeBatch batch batchVecs m =
     foldl (\<lambda>m j. AList.update (chunk_id (batch ! j))
                     (if j < length batchVecs then Some (batchVecs ! j) else None) m)
           m [0..<length batch]"

function embedBatches :: "Env \<Rightarrow> Chunk list \<Rightarrow> nat \<Rightarrow> Worker \<Rightarrow> Worker" where
  \<comment> \<open>the loop over the batches of ten chunks; a batch whose call throws is skipped\<close>
  "embedBatches env cs i w =
     (if i < length cs then
        (let batch = slice cs i (i + 10) in
         case embedTexts env i (map chunk_text batch) of
           None \<Rightarrow> embedBatches env cs (i + 10) w
         | Some batchVecs \<Rightarrow>
             embedBatches env cs (i + 10)
               (postMessage (EmbeddingsBuilt (length batch))
                  (w\<lparr>embeddingsByChunkId := storeBatch batch batchVecs (embeddingsByChunkId w)\<rparr>)))
      else w)"
  by pat_completeness auto
termination
  by (relation "measure (\<lambda>(env, cs, i, w). length cs - i)") auto

declare embedBatches.simps [simp del]

definition handleIngest ::
  "Env \<Rightarrow> IngestFile list \<Rightarrow> ChunkingMethod option \<Rightarrow> Retrieval \<Rightarrow> Worker \<Rightarrow> error + Worker" where
  "handleIngest env files method retrieval w =
     (case parseAndChunk (segmenter env) files method of
        Inl e \<Rightarrow> Inl e
      | Inr cs \<Rightarrow>
          (let w1 = w\<lparr>chunkIdToChunk :=
                        foldl (\<lambda>m c. AList.update (chunk_id c) c m) (chunkIdToChunk w) cs\<rparr>;
               w2 = (if retrieval = Sparse \<or> retrieval = Hybrid then buildBM25 cs w1 else w1)
           in Inr
               (if retrieval = Dense \<or> retrieval = Hybrid then
                  (let w3 = (if embedderReady w2 = None then postMessage EmbedderLoading w2 else w2);
                       w4 = ensureEmbedder env w3
                   in case embedderReady w4 of
                        Some (Some msg) \<Rightarrow>
                          postMessage (Ingested (length files) (length cs))
                            (postMessage
                               (EmbedderFailed
                                  (''Failed to load embedding model ('' @ msg
                                     @ ''). Dense/Hybrid will be unavailable.''))
                               w4)
                      | _ \<Rightarrow>
                          (let w5 = postMessage EmbedderReady w4
                           in if length cs = 0 then w5
                              else postMessage (Ingested (length files) (length cs))
                                     (embedBatches env cs 0
                                        (postMessage (EmbeddingStarted (length cs)) w5))))
                else postMessage (Ingested (length files) (length cs)) w2)))"

definition handleSearchSparse :: "Worker \<Rightarrow> string \<Rightarrow> int \<Rightarrow> error + Worker" where
  \<comment> \<open>\<^verbatim>\<open>handleSearch\<close> in mode \<^verbatim>\<open>"sparse"\<close>\<close>
  "handleSearchSparse w query topK =
     (case search (bm25 w) query topK of
        Inl e \<Rightarrow> Inl e
      | Inr rs \<Rightarrow>
          Inr (postMessage
                 (SearchResults (map (\<lambda>r. (map_of (chunkIdToChunk w) (fst r), snd r)) rs)) w))"

section \<open>Reciprocal rank fusion\<close>

definition kRRF :: real where
  "kRRF = 60"

definition rrfAccumulate :: "string list \<Rightarrow> (string \<times> real) list \<Rightarrow> (string \<times> real) list" where
  \<comment> \<open>\<^verbatim>\<open>ranking.forEach((id, idx) => fused.set(id, (fused.get(id) ?? 0) + 1 / (kRRF + idx + 1)))\<close>\<close>
  "rrfAccumulate ranking fused =
     foldl (\<lambda>fused e. AList.update (snd e)
                         ((case map_of fused (snd e) of None \<Rightarrow> 0 | Some s \<Rightarrow> s)
                            + 1 / (kRRF + real (fst e) + 1)) fused)
           fused (enumerate 0 ranking)"

definition rrfFuse :: "string list \<Rightarrow> string list \<Rightarrow> (string \<times> real) list" where
  \<comment> \<open>the map \<^verbatim>\<open>fused\<close>: the dense ranks are added first, then the sparse ranks\<close>
  "rrfFuse denseRanking sparseRanking = rrfAccumulate sparseRanking (rrfAccumulate denseRanking [])"

definition rrfRank :: "string list \<Rightarrow> string list \<Rightarrow> int \<Rightarrow> (string \<times> real) list" where
  \<comment> \<open>\<^verbatim>\<open>ranked\<close>\<close>
  "rrfRank denseRanking sparseRanking topK =
     sliceTo (sortByScoreDesc (rrfFuse denseRanking sparseRanking)) topK"

definition hybridResults ::
  "Worker \<Rightarrow> (string \<times> real) list \<Rightarrow> string \<Rightarrow> int \<Rightarrow> error + (Chunk option \<times> real) list" where
  \<comment> \<open>\<^verbatim>\<open>handleSearch\<close> in mode \<^verbatim>\<open>"hybrid"\<close>, from the map \<^verbatim>\<open>denseScores\<close> on (the cosine
      similarities of the chunks to the query, which come from the embedding model)\<close>
  "hybridResults w denseScores query topK =
     (case search (bm25 w) query (max (topK * 4) 40) of
        Inl e \<Rightarrow> Inl e
      | Inr sparse \<Rightarrow>
          Inr (map (\<lambda>r. (map_of (chunkIdToChunk w) (fst r), snd r))
                 (rrfRank (map fst (sortByScoreDesc denseScores)) (map fst sparse) topK)))"

fun rankOf :: "'a \<Rightarrow> 'a list \<Rightarrow> nat option" where
  \<comment> \<open>the zero-based position of an entry in a ranking\<close>
  "rankOf x [] = None"
| "rankOf x (y # ys) = (if x = y then Some 0 else map_option Suc (rankOf x ys))"

definition spec_contribution :: "string list \<Rightarrow> string \<Rightarrow> real" where
  \<comment> \<open>the specification's words: an entry at zero-based rank \<open>i\<close> contributes
      \<open>1 / (k_rrf + i + 1)\<close> with \<open>k_rrf = 60\<close>; a ranking that does not hold the chunk
      contributes nothing\<close>
  "spec_contribution ranking c =
     (case rankOf c ranking of None \<Rightarrow> 0 | Some i \<Rightarrow> 1 / (60 + real i + 1))"

definition contribSum :: "nat \<Rightarrow> string list \<Rightarrow> string \<Rightarrow> real" where
  \<comment> \<open>what the rounds of \<open>rrfAccumulate\<close> add to the fused score of \<open>c\<close>, for a ranking
      whose first entry has position \<open>n\<close>\<close>
  "contribSum n ranking c =
     sum_list (map (\<lambda>e. if snd e = c then 1 / (kRRF + real (fst e) + 1) else 0) (enumerate n ranking))"

section \<open>Spans and windows\<close>



definition windowChunk :: "string \<Rightarrow> string \<Rightarrow> nat \<Rightarrow> nat \<Rightarrow> Chunk" where
  \<comment> \<open>the chunk of the window of tokens \<open>a\<close> up to \<open>e\<close>: from the start of token \<open>a\<close>
      to the end of token \<open>e - 1\<close>\<close>
  "windowChunk s d a e =
     (let tokenMatches = matchAllNonSpace 0 s;
          cStart = fst (tokenMatches ! a);
          cEnd = fst (tokenMatches ! (e - 1)) + length (snd (tokenMatches ! (e - 1)))
      in mkChunk d (slice s cStart cEnd) cStart cEnd)"

section \<open>Paragraphs, sentences and the packing invariant\<close>








section \<open>Invariants of the index\<close>

definition postingsOf :: "BM25Index \<Rightarrow> string \<Rightarrow> Posting list" where
  \<comment> \<open>\<^verbatim>\<open>this.vocab.get(term) ?? []\<close>\<close>
  "postingsOf idx t = (case map_of (vocab idx) t of None \<Rightarrow> [] | Some ps \<Rightarrow> ps)"

text \<open>
  What holds of every index built from the empty one by adding the documents \<open>docs\<close>:
  the constants are those of the class, no key occurs twice in a map, no posting list
  is empty or longer than the number of documents, every posting has a positive term
  frequency and comes from an added document that holds the term, and the total
  length is positive as soon as there is a term.
\<close>

definition indexInv :: "BM25Doc list \<Rightarrow> BM25Index \<Rightarrow> bool" where
  "indexInv docs idx \<longleftrightarrow>
     bm_k1 idx = 12 / 10 \<and> bm_b idx = 75 / 100
     \<and> distinct (map fst (vocab idx)) \<and> distinct (map fst (docLengths idx))
     \<and> totalDocs idx = length docs
     \<and> (vocab idx \<noteq> [] \<longrightarrow> 0 < totalDocLength idx)
     \<and> (\<forall>t ps. map_of (vocab idx) t = Some ps \<longrightarrow>
           ps \<noteq> [] \<and> length ps \<le> totalDocs idx
           \<and> (\<forall>p \<in> set ps. 1 \<le> tf p
                 \<and> (\<exists>d \<in> set docs. doc_id d = docId p \<and> t \<in> set (tokenize (doc_text d)))))"

definition goodScores :: "(string \<Rightarrow> bool) \<Rightarrow> (string \<times> real) list \<Rightarrow> bool" where
  "goodScores Q scores \<longleftrightarrow> (\<forall>e \<in> set scores. 0 < snd e \<and> Q (fst e))"

section \<open>The empty index\<close>

lemma scoreTerms_no_vocab: "vocab idx = [] \<Longrightarrow> scoreTerms idx qTokens scores = Inr scores"
  by (induction qTokens) auto

text \<open>
  Claim C6. An index to which no document was ever added has \<open>N = 0\<close> and
  \<open>avgdl = 0\<close>, and searching it with any query and any \<open>topK\<close> returns the empty
  list: no term has postings, so the loop body that divides by \<open>avgdl\<close> never runs
  (the result is \<open>Inr\<close>, not \<open>Inl DivisionByZero\<close>) and no score is produced at all.
\<close>

theorem empty_index_search:
  "totalDocs newBM25Index = 0 \<and> avgDocLen newBM25Index = 0
   \<and> search newBM25Index query topK = Inr []"
  by (simp add: search_def scoreTerms_no_vocab avgDocLen_def newBM25Index_def
        sortByScoreDesc_def sliceTo_def)

section \<open>Maps and the index under \<^verbatim>\<open>addDocuments\<close>\<close>

lemma tfMap_fold_distinct:
  "distinct (map fst m) \<Longrightarrow>
   distinct (map fst (foldl (\<lambda>tfMap t. AList.update t ((case map_of tfMap t of None \<Rightarrow> 0 | Some n \<Rightarrow> n) + 1) tfMap) m ts))"
  by (induction ts arbitrary: m) (auto simp: distinct_update)

lemma tfMap_fold_lookup:
  "map_of (foldl (\<lambda>tfMap t. AList.update t ((case map_of tfMap t of None \<Rightarrow> 0 | Some n \<Rightarrow> n) + 1) tfMap) m ts) x =
   (if x \<in> set ts then Some ((case map_of m x of None \<Rightarrow> 0 | Some n \<Rightarrow> n) + count_list ts x) else map_of m x)"
  by (induction ts arbitrary: m) (auto simp: update_conv')

lemma tfMapOf_distinct: "distinct (map fst (tfMapOf ts))"
  unfolding tfMapOf_def by (rule tfMap_fold_distinct) simp

lemma tfMapOf_lookup:
  "map_of (tfMapOf ts) x = (if x \<in> set ts then Some (count_list ts x) else None)"
  unfolding tfMapOf_def using tfMap_fold_lookup[of "[]" ts x] by simp

lemma tfMapOf_Nil: "tfMapOf [] = []"
  by (simp add: tfMapOf_def)

lemma map_of_addPosting:
  "map_of (addPosting d voc e) =
   (map_of voc)(fst e \<mapsto> (case map_of voc (fst e) of None \<Rightarrow> [] | Some ps \<Rightarrow> ps) @ [\<lparr>docId = d, tf = snd e\<rparr>])"
  by (simp add: addPosting_def update_conv')

lemma addPosting_fold_distinct:
  "distinct (map fst voc) \<Longrightarrow> distinct (map fst (foldl (addPosting d) voc es))"
  by (induction es arbitrary: voc) (auto simp: addPosting_def distinct_update)

lemma addPosting_fold_lookup:
  "distinct (map fst es) \<Longrightarrow>
   map_of (foldl (addPosting d) voc es) t =
   (case map_of es t of
      None \<Rightarrow> map_of voc t
    | Some n \<Rightarrow> Some ((case map_of voc t of None \<Rightarrow> [] | Some ps \<Rightarrow> ps) @ [\<lparr>docId = d, tf = n\<rparr>]))"
proof (induction es arbitrary: voc)
  case Nil
  then show ?case by simp
next
  case (Cons e es)
  have notin: "map_of es (fst e) = None"
    using Cons.prems by (simp add: map_of_eq_None_iff)
  have "map_of (foldl (addPosting d) voc (e # es)) t = map_of (foldl (addPosting d) (addPosting d voc e) es) t"
    by simp
  also have "\<dots> = (case map_of es t of
      None \<Rightarrow> map_of (addPosting d voc e) t
    | Some n \<Rightarrow> Some ((case map_of (addPosting d voc e) t of None \<Rightarrow> [] | Some ps \<Rightarrow> ps) @ [\<lparr>docId = d, tf = n\<rparr>]))"
    using Cons.prems by (intro Cons.IH) simp
  also have "\<dots> = (case map_of (e # es) t of
      None \<Rightarrow> map_of voc t
    | Some n \<Rightarrow> Some ((case map_of voc t of None \<Rightarrow> [] | Some ps \<Rightarrow> ps) @ [\<lparr>docId = d, tf = n\<rparr>]))"
    using notin by (cases e) (auto simp: map_of_addPosting split: option.splits)
  finally show ?case .
qed

lemma vocab_addDocument:
  "map_of (vocab (addDocument idx doc)) t =
   (if t \<in> set (tokenize (doc_text doc))
    then Some (postingsOf idx t @ [\<lparr>docId = doc_id doc, tf = count_list (tokenize (doc_text doc)) t\<rparr>])
    else map_of (vocab idx) t)"
  by (simp add: addDocument_def Let_def addPosting_fold_lookup tfMapOf_distinct tfMapOf_lookup postingsOf_def)

lemma addDocument_fields:
  "totalDocs (addDocument idx doc) = totalDocs idx + 1"
  "totalDocLength (addDocument idx doc) = totalDocLength idx + length (tokenize (doc_text doc))"
  "docLengths (addDocument idx doc) = AList.update (doc_id doc) (length (tokenize (doc_text doc))) (docLengths idx)"
  "bm_k1 (addDocument idx doc) = bm_k1 idx"
  "bm_b (addDocument idx doc) = bm_b idx"
  by (simp_all add: addDocument_def Let_def)

lemma addDocument_no_tokens:
  "tokenize (doc_text doc) = [] \<Longrightarrow> vocab (addDocument idx doc) = vocab idx"
  by (simp add: addDocument_def tfMapOf_Nil)

lemma addDocument_distinct_vocab:
  "distinct (map fst (vocab idx)) \<Longrightarrow> distinct (map fst (vocab (addDocument idx doc)))"
  by (simp add: addDocument_def Let_def addPosting_fold_distinct)

lemma addDocuments_concat: "foldl addDocuments idx batches = addDocuments idx (concat batches)"
  by (induction batches arbitrary: idx) (auto simp: addDocuments_def)

section \<open>Serialization\<close>

lemma newMap_fold:
  "distinct (map fst (m @ es)) \<Longrightarrow> foldl (\<lambda>m e. AList.update (fst e) (snd e) m) m es = m @ es"
proof (induction es arbitrary: m)
  case Nil
  then show ?case by simp
next
  case (Cons e es)
  have "AList.update (fst e) (snd e) m = m @ [e]"
    using Cons.prems by (induction m) auto
  then show ?case
    using Cons.IH[of "m @ [e]"] Cons.prems by simp
qed

lemma newMap_id: "distinct (map fst es) \<Longrightarrow> newMap es = es"
  unfolding newMap_def using newMap_fold[of "[]" es] by simp

lemma copyPostings_id: "map copyPostings voc = voc"
  by (induction voc) (auto simp: copyPostings_def map_idI)

lemma fromJSON_serialize:
  assumes "distinct (map fst (vocab idx))" "distinct (map fst (docLengths idx))"
  shows "fromJSON (serialize idx) = idx"
  using assms by (simp add: fromJSON_def serialize_def newMap_id copyPostings_id newBM25Index_def)

section \<open>The invariant holds of every index built by adding documents\<close>

lemma indexInv_new: "indexInv [] newBM25Index"
  by (simp add: indexInv_def newBM25Index_def)

lemma count_list_pos: "x \<in> set xs \<Longrightarrow> 1 \<le> count_list xs x"
  by (induction xs) auto

lemma indexInv_addDocument:
  assumes inv: "indexInv docs idx"
  shows "indexInv (docs @ [doc]) (addDocument idx doc)"
proof -
  let ?idx' = "addDocument idx doc"
  let ?toks = "tokenize (doc_text doc)"
  have ks: "bm_k1 ?idx' = 12 / 10" "bm_b ?idx' = 75 / 100"
    using inv by (simp_all add: addDocument_fields indexInv_def)
  have dist: "distinct (map fst (vocab ?idx'))" "distinct (map fst (docLengths ?idx'))"
    using inv by (simp_all add: addDocument_distinct_vocab addDocument_fields distinct_update indexInv_def)
  have total: "totalDocs ?idx' = length (docs @ [doc])"
    using inv by (simp add: addDocument_fields indexInv_def)
  have len: "vocab ?idx' \<noteq> [] \<longrightarrow> 0 < totalDocLength ?idx'"
  proof (cases "?toks = []")
    case True
    then show ?thesis
      using inv by (simp add: addDocument_no_tokens addDocument_fields indexInv_def)
  next
    case False
    then show ?thesis
      by (simp add: addDocument_fields)
  qed
  have post: "ps \<noteq> [] \<and> length ps \<le> totalDocs ?idx'
           \<and> (\<forall>p \<in> set ps. 1 \<le> tf p
                 \<and> (\<exists>d \<in> set (docs @ [doc]). doc_id d = docId p \<and> t \<in> set (tokenize (doc_text d))))"
    if look: "map_of (vocab ?idx') t = Some ps" for t ps
  proof (cases "t \<in> set ?toks")
    case True
    then have ps: "ps = postingsOf idx t @ [\<lparr>docId = doc_id doc, tf = count_list ?toks t\<rparr>]"
      using look by (simp add: vocab_addDocument)
    have old: "length (postingsOf idx t) \<le> totalDocs idx
        \<and> (\<forall>p \<in> set (postingsOf idx t). 1 \<le> tf p
                 \<and> (\<exists>d \<in> set docs. doc_id d = docId p \<and> t \<in> set (tokenize (doc_text d))))"
      using inv by (auto simp: postingsOf_def indexInv_def split: option.splits)
    show ?thesis
      using old True count_list_pos[OF True] by (auto simp: ps addDocument_fields)
  next
    case False
    then have "map_of (vocab idx) t = Some ps"
      using look by (simp add: vocab_addDocument)
    then have "ps \<noteq> [] \<and> length ps \<le> totalDocs idx
           \<and> (\<forall>p \<in> set ps. 1 \<le> tf p
                 \<and> (\<exists>d \<in> set docs. doc_id d = docId p \<and> t \<in> set (tokenize (doc_text d))))"
      using inv unfolding indexInv_def by blast
    then show ?thesis
      by (auto simp: addDocument_fields)
  qed
  show ?thesis
    unfolding indexInv_def using ks dist total len post by blast
qed

lemma indexInv_addDocuments:
  "indexInv docs idx \<Longrightarrow> indexInv (docs @ ds) (addDocuments idx ds)"
proof (induction ds arbitrary: docs idx)
  case Nil
  then show ?case by (simp add: addDocuments_def)
next
  case (Cons d ds)
  from Cons.IH[OF indexInv_addDocument[OF Cons.prems, of d] ]
  show ?case by (simp add: addDocuments_def)
qed

lemma indexInv_reachable: "indexInv (concat batches) (foldl addDocuments newBM25Index batches)"
  using indexInv_addDocuments[OF indexInv_new, of "concat batches"]
  by (simp add: addDocuments_concat)

text \<open>
  Claim C1. Whatever batches of documents were added to a new index, the index
  rebuilt by \<open>fromJSON\<close> from the serialized state answers every query, for every
  \<open>topK\<close>, with the same list as the original: same ids, same scores, same order.
\<close>

theorem serialize_fromJSON_search: "search (fromJSON (serialize (foldl addDocuments newBM25Index batches))) query topK
   = search (foldl addDocuments newBM25Index batches) query topK"
proof -
  have "indexInv (concat batches) (foldl addDocuments newBM25Index batches)"
    by (rule indexInv_reachable)
  then have "fromJSON (serialize (foldl addDocuments newBM25Index batches)) = foldl addDocuments newBM25Index batches"
    by (intro fromJSON_serialize) (simp_all add: indexInv_def)
  then show ?thesis by simp
qed

section \<open>Scores of a search\<close>

lemma idfOf_pos: "n \<le> N \<Longrightarrow> 0 < idfOf N n"
proof -
  assume "n \<le> N"
  then have "0 < (real N - real n + 5 / 10) / (real n + 5 / 10)"
    by (intro divide_pos_pos) (simp_all add: add_pos_nonneg)
  then show ?thesis
    by (simp add: idfOf_def)
qed

lemma postingScore_pos:
  assumes "0 < avgdl" "0 < idf" "bm_k1 idx = 12 / 10" "bm_b idx = 75 / 100" "1 \<le> tf p"
  shows "\<exists>s. postingScore idx avgdl idf p = Inr s \<and> 0 < s"
proof -
  define dl where "dl = real (case map_of (docLengths idx) (docId p) of None \<Rightarrow> 0 | Some l \<Rightarrow> l)"
  define denom where "denom = real (tf p) + bm_k1 idx * (1 - bm_b idx + (bm_b idx * dl) / avgdl)"
  have dl: "0 \<le> dl" by (simp add: dl_def)
  have kb: "0 \<le> bm_k1 idx" "0 \<le> bm_b idx" "0 \<le> 1 - bm_b idx"
    by (simp_all add: assms(3,4))
  have "0 \<le> (bm_b idx * dl) / avgdl"
    using dl assms(1) kb(2) by (intro divide_nonneg_pos mult_nonneg_nonneg)
  then have "0 \<le> 1 - bm_b idx + (bm_b idx * dl) / avgdl"
    using kb(3) by linarith
  then have "0 \<le> bm_k1 idx * (1 - bm_b idx + (bm_b idx * dl) / avgdl)"
    using kb(1) by (rule mult_nonneg_nonneg[rotated])
  then have denom: "0 < denom"
    using assms(5) unfolding denom_def by linarith
  have num: "0 < real (tf p) * (bm_k1 idx + 1)"
    using assms(5) kb(1) by (intro mult_pos_pos) simp_all
  have pos: "0 < idf * ((real (tf p) * (bm_k1 idx + 1)) / denom)"
    using assms(2) divide_pos_pos[OF num denom] by (rule mult_pos_pos)
  have "postingScore idx avgdl idf p = Inr (idf * ((real (tf p) * (bm_k1 idx + 1)) / denom))"
    using assms(1) denom
    unfolding postingScore_def dl_def[symmetric] Let_def denom_def[symmetric] by simp
  then show ?thesis
    using pos by blast
qed

lemma set_update_subset: "set (AList.update k v al) \<subseteq> insert (k, v) (set al)"
  by (induction al) auto

lemma goodScores_update:
  assumes "goodScores Q scores" "0 < s" "Q k"
  shows "goodScores Q (AList.update k ((case map_of scores k of None \<Rightarrow> 0 | Some x \<Rightarrow> x) + s) scores)"
proof -
  have "0 \<le> (case map_of scores k of None \<Rightarrow> 0 | Some x \<Rightarrow> x)"
  proof (cases "map_of scores k")
    case None
    then show ?thesis by simp
  next
    case (Some x)
    then have "(k, x) \<in> set scores" by (rule map_of_SomeD)
    then show ?thesis using assms(1) Some by (auto simp: goodScores_def)
  qed
  then have "0 < (case map_of scores k of None \<Rightarrow> 0 | Some x \<Rightarrow> x) + s"
    using assms(2) by linarith
  then show ?thesis
    using assms(1,3) set_update_subset[of k _ scores] unfolding goodScores_def by fastforce
qed

lemma scorePostings_good:
  assumes "0 < avgdl" "0 < idf" "bm_k1 idx = 12 / 10" "bm_b idx = 75 / 100"
  shows "\<forall>p \<in> set ps. 1 \<le> tf p \<and> Q (docId p) \<Longrightarrow> goodScores Q scores \<Longrightarrow>
         \<exists>scores'. scorePostings idx avgdl idf ps scores = Inr scores' \<and> goodScores Q scores'"
proof (induction ps arbitrary: scores)
  case Nil
  then show ?case by simp
next
  case (Cons p ps)
  obtain s where s: "postingScore idx avgdl idf p = Inr s" "0 < s"
    using postingScore_pos[OF assms, of p] Cons.prems(1) by auto
  have "goodScores Q (AList.update (docId p) ((case map_of scores (docId p) of None \<Rightarrow> 0 | Some x \<Rightarrow> x) + s) scores)"
    using Cons.prems s(2) by (intro goodScores_update) auto
  from Cons.IH[OF _ this] Cons.prems(1) show ?case
    by (simp add: s(1))
qed

lemma scoreTerms_good:
  assumes inv: "indexInv docs idx"
  shows "goodScores (\<lambda>d. \<exists>t \<in> set allq. \<exists>doc \<in> set docs. doc_id doc = d \<and> t \<in> set (tokenize (doc_text doc))) scores
     \<Longrightarrow> set qs \<subseteq> set allq \<Longrightarrow>
     \<exists>scores'. scoreTerms idx qs scores = Inr scores'
       \<and> goodScores (\<lambda>d. \<exists>t \<in> set allq. \<exists>doc \<in> set docs. doc_id doc = d \<and> t \<in> set (tokenize (doc_text doc))) scores'"
proof (induction qs arbitrary: scores)
  case Nil
  then show ?case by simp
next
  case (Cons q qs)
  let ?Q = "\<lambda>d. \<exists>t \<in> set allq. \<exists>doc \<in> set docs. doc_id doc = d \<and> t \<in> set (tokenize (doc_text doc))"
  show ?case
  proof (cases "map_of (vocab idx) q")
    case None
    then show ?thesis using Cons by simp
  next
    case (Some ps)
    have props: "ps \<noteq> []" "length ps \<le> totalDocs idx"
      "\<forall>p \<in> set ps. 1 \<le> tf p \<and> (\<exists>d \<in> set docs. doc_id d = docId p \<and> q \<in> set (tokenize (doc_text d)))"
      using inv Some unfolding indexInv_def by blast+
    have "vocab idx \<noteq> []" using Some by auto
    then have L: "0 < totalDocLength idx" using inv by (simp add: indexInv_def)
    have N: "0 < totalDocs idx" using props(1,2) by (cases ps) auto
    have avg: "0 < avgDocLen idx" using L N by (simp add: avgDocLen_def)
    have idf: "0 < idfOf (totalDocs idx) (length ps)" using props(2) by (rule idfOf_pos)
    have k: "bm_k1 idx = 12 / 10" "bm_b idx = 75 / 100" using inv by (simp_all add: indexInv_def)
    have "q \<in> set allq" using Cons.prems(2) by simp
    then have Q: "\<forall>p \<in> set ps. 1 \<le> tf p \<and> ?Q (docId p)"
      using props(3) by blast
    obtain sc where sc: "scorePostings idx (avgDocLen idx) (idfOf (totalDocs idx) (length ps)) ps scores = Inr sc"
        "goodScores ?Q sc"
      using scorePostings_good[OF avg idf k, of ps ?Q scores] Q Cons.prems(1) by blast
    from Cons.IH[OF sc(2)] Cons.prems(2) show ?thesis
      by (simp add: Some sc(1))
  qed
qed

lemma set_sliceTo: "set (sliceTo xs k) \<subseteq> set xs"
  by (auto simp: sliceTo_def dest: in_set_takeD)

text \<open>
  Claim C10. On an index built by adding documents, a search returns a list (no
  division by zero occurs), every entry of it has a strictly positive score, and
  some added document with the entry's id holds a term of the query: a chunk without
  any query term gets no entry at all. The inverse document frequency is strictly
  positive whenever the number of postings is at most the number of documents.
\<close>

theorem search_scores_positive:
  "(\<forall>N n. n \<le> N \<longrightarrow> 0 < idfOf N n) \<and>
   (\<exists>results. search (foldl addDocuments newBM25Index batches) query topK = Inr results
     \<and> (\<forall>r \<in> set results. 0 < snd r
           \<and> (\<exists>t \<in> set (tokenize query). \<exists>doc \<in> set (concat batches).
                 doc_id doc = fst r \<and> t \<in> set (tokenize (doc_text doc)))))"
proof -
  let ?idx = "foldl addDocuments newBM25Index batches"
  let ?Q = "\<lambda>d. \<exists>t \<in> set (tokenize query). \<exists>doc \<in> set (concat batches). doc_id doc = d \<and> t \<in> set (tokenize (doc_text doc))"
  have "goodScores ?Q []" by (simp add: goodScores_def)
  from scoreTerms_good[OF indexInv_reachable this, of "tokenize query"]
  obtain sc where sc: "scoreTerms ?idx (tokenize query) [] = Inr sc" "goodScores ?Q sc"
    by auto
  have "set (sliceTo (sortByScoreDesc sc) topK) \<subseteq> set sc"
    using set_sliceTo[of "sortByScoreDesc sc" topK] by (simp add: sortByScoreDesc_def)
  then have "\<exists>results. search ?idx query topK = Inr results
     \<and> (\<forall>r \<in> set results. 0 < snd r \<and> ?Q (fst r))"
    using sc unfolding search_def goodScores_def by auto
  then show ?thesis
    using idfOf_pos by blast
qed

section \<open>The two-document scenario\<close>

lemma tokenize_cat_mat: "tokenize ''the cat sat on the mat'' = [''cat'', ''sat'', ''mat'']"
  by code_simp

lemma tokenize_dog_log: "tokenize ''the dog sat on the log'' = [''dog'', ''sat'', ''log'']"
  by code_simp

lemma tokenize_cat: "tokenize ''cat'' = [''cat'']"
  by code_simp

lemma chunk_cat_mat:
  "chunkByTokens ''the cat sat on the mat'' ''doc1'' 10 0
   = Inr [\<lparr>chunk_id = ''doc1:0-22'', chunk_docId = ''doc1'',
           chunk_text = ''the cat sat on the mat'', charStart = 0, charEnd = 22\<rparr>]"
  by code_simp

lemma chunk_dog_log:
  "chunkByTokens ''the dog sat on the log'' ''doc2'' 10 0
   = Inr [\<lparr>chunk_id = ''doc2:0-22'', chunk_docId = ''doc2'',
           chunk_text = ''the dog sat on the log'', charStart = 0, charEnd = 22\<rparr>]"
  by code_simp

lemma cat_dog_index:
  "addDocuments newBM25Index
     [\<lparr>doc_id = ''doc1:0-22'', doc_text = ''the cat sat on the mat''\<rparr>,
      \<lparr>doc_id = ''doc2:0-22'', doc_text = ''the dog sat on the log''\<rparr>]
   = \<lparr>bm_k1 = 12 / 10, bm_b = 75 / 100,
      vocab = [(''cat'', [\<lparr>docId = ''doc1:0-22'', tf = 1\<rparr>]),
               (''sat'', [\<lparr>docId = ''doc1:0-22'', tf = 1\<rparr>, \<lparr>docId = ''doc2:0-22'', tf = 1\<rparr>]),
               (''mat'', [\<lparr>docId = ''doc1:0-22'', tf = 1\<rparr>]),
               (''dog'', [\<lparr>docId = ''doc2:0-22'', tf = 1\<rparr>]),
               (''log'', [\<lparr>docId = ''doc2:0-22'', tf = 1\<rparr>])],
      docLengths = [(''doc1:0-22'', 3), (''doc2:0-22'', 3)], totalDocs = 2, totalDocLength = 6\<rparr>"
  by (simp add: addDocuments_def addDocument_def tokenize_cat_mat tokenize_dog_log tfMapOf_def
        addPosting_def newBM25Index_def)

lemma cat_dog_search:
  "search (addDocuments newBM25Index
     [\<lparr>doc_id = ''doc1:0-22'', doc_text = ''the cat sat on the mat''\<rparr>,
      \<lparr>doc_id = ''doc2:0-22'', doc_text = ''the dog sat on the log''\<rparr>]) ''cat'' 10
   = Inr [(''doc1:0-22'', ln 2)]"
  unfolding cat_dog_index
  by (simp add: search_def tokenize_cat avgDocLen_def idfOf_def postingScore_def
        sortByScoreDesc_def sliceTo_def)

lemma cat_index:
  "addDocuments newBM25Index [\<lparr>doc_id = ''doc1:0-22'', doc_text = ''the cat sat on the mat''\<rparr>]
   = \<lparr>bm_k1 = 12 / 10, bm_b = 75 / 100,
      vocab = [(''cat'', [\<lparr>docId = ''doc1:0-22'', tf = 1\<rparr>]),
               (''sat'', [\<lparr>docId = ''doc1:0-22'', tf = 1\<rparr>]),
               (''mat'', [\<lparr>docId = ''doc1:0-22'', tf = 1\<rparr>])],
      docLengths = [(''doc1:0-22'', 3)], totalDocs = 1, totalDocLength = 3\<rparr>"
  by (simp add: addDocuments_def addDocument_def tokenize_cat_mat tfMapOf_def
        addPosting_def newBM25Index_def)

text \<open>
  The two error values are results the model can take. A state that no sequence of
  \<open>addDocuments\<close> builds, a posting in an index without documents, makes the search
  divide by \<open>avgdl = 0\<close>; \<open>maxTokens = 0\<close> makes \<open>chunkByTokens\<close> read
  \<^verbatim>\<open>tokenEnds[-1]\<close>.
\<close>

lemma search_division_by_zero:
  "search (fromJSON \<lparr>json_k1 = 12 / 10, json_b = 75 / 100, json_totalDocs = 0,
                      json_totalDocLength = 0, json_docLengths = [],
                      json_vocab = [(''cat'', [\<lparr>docId = ''a'', tf = 1\<rparr>])]\<rparr>) ''cat'' 10
   = Inl DivisionByZero"
  by (simp add: search_def fromJSON_def newMap_def copyPostings_def newBM25Index_def tokenize_cat
        avgDocLen_def postingScore_def)

lemma chunkByTokens_undefined_offset: "chunkByTokens ''a b'' ''d'' 0 0 = Inl UndefinedOffset"
  by code_simp

section \<open>Adding a document twice\<close>

lemma postingsOf_addDocument:
  "t \<in> set (tokenize (doc_text doc)) \<Longrightarrow>
   postingsOf (addDocument idx doc) t
   = postingsOf idx t @ [\<lparr>docId = doc_id doc, tf = count_list (tokenize (doc_text doc)) t\<rparr>]"
  using vocab_addDocument[of idx doc t] by (simp add: postingsOf_def)

text \<open>
  Claim C9. \<open>addDocuments\<close> is not idempotent. Adding a document whose id the index
  already holds counts it again: the number of documents grows by one and the total
  length by the document's token count, while the length map keeps its keys (the id
  has one entry); every term of the document gets one more posting with that id at
  the end of its posting list, whatever postings with the same id the list holds
  already, and the index is not the one before.
\<close>

theorem addDocuments_double_counts:
  assumes "map_of (docLengths idx) (doc_id doc) \<noteq> None"
  shows "totalDocs (addDocuments idx [doc]) = totalDocs idx + 1
     \<and> totalDocLength (addDocuments idx [doc])
         = totalDocLength idx + length (tokenize (doc_text doc))
     \<and> map fst (docLengths (addDocuments idx [doc])) = map fst (docLengths idx)
     \<and> (\<forall>t \<in> set (tokenize (doc_text doc)).
           postingsOf (addDocuments idx [doc]) t
           = postingsOf idx t
             @ [\<lparr>docId = doc_id doc, tf = count_list (tokenize (doc_text doc)) t\<rparr>])
     \<and> addDocuments idx [doc] \<noteq> idx"
proof -
  have "totalDocs (addDocuments idx [doc]) \<noteq> totalDocs idx"
    by (simp add: addDocuments_def addDocument_fields)
  then have changed: "addDocuments idx [doc] \<noteq> idx"
    by auto
  have "doc_id doc \<in> set (map fst (docLengths idx))"
    using assms by (simp add: map_of_eq_None_iff)
  then have keys: "map fst (docLengths (addDocuments idx [doc])) = map fst (docLengths idx)"
    by (simp add: addDocuments_def addDocument_fields update_keys)
  show ?thesis
    using changed keys
    by (simp add: addDocuments_def addDocument_fields postingsOf_addDocument)
qed

theorem addDocuments_double_counts_witness:
  "map_of (docLengths (addDocuments newBM25Index
                          [\<lparr>doc_id = ''doc1:0-22'', doc_text = ''the cat sat on the mat''\<rparr>]))
          ''doc1:0-22'' \<noteq> None
   \<and> totalDocs (addDocuments
                  (addDocuments newBM25Index
                     [\<lparr>doc_id = ''doc1:0-22'', doc_text = ''the cat sat on the mat''\<rparr>])
                  [\<lparr>doc_id = ''doc1:0-22'', doc_text = ''the cat sat on the mat''\<rparr>]) = 2
   \<and> map fst (docLengths (addDocuments
                  (addDocuments newBM25Index
                     [\<lparr>doc_id = ''doc1:0-22'', doc_text = ''the cat sat on the mat''\<rparr>])
                  [\<lparr>doc_id = ''doc1:0-22'', doc_text = ''the cat sat on the mat''\<rparr>]))
       = [''doc1:0-22'']
   \<and> totalDocLength (addDocuments
                  (addDocuments newBM25Index
                     [\<lparr>doc_id = ''doc1:0-22'', doc_text = ''the cat sat on the mat''\<rparr>])
                  [\<lparr>doc_id = ''doc1:0-22'', doc_text = ''the cat sat on the mat''\<rparr>]) = 6
   \<and> postingsOf (addDocuments
                  (addDocuments newBM25Index
                     [\<lparr>doc_id = ''doc1:0-22'', doc_text = ''the cat sat on the mat''\<rparr>])
                  [\<lparr>doc_id = ''doc1:0-22'', doc_text = ''the cat sat on the mat''\<rparr>]) ''cat''
     = [\<lparr>docId = ''doc1:0-22'', tf = 1\<rparr>, \<lparr>docId = ''doc1:0-22'', tf = 1\<rparr>]"
proof -
  have present: "map_of (docLengths (addDocuments newBM25Index
                          [\<lparr>doc_id = ''doc1:0-22'', doc_text = ''the cat sat on the mat''\<rparr>]))
          (doc_id \<lparr>doc_id = ''doc1:0-22'', doc_text = ''the cat sat on the mat''\<rparr>) \<noteq> None"
    by (simp add: cat_index)
  show ?thesis
    using addDocuments_double_counts[OF present] present
    by (simp add: tokenize_cat_mat) (simp add: cat_index postingsOf_def)
qed

section \<open>Ingest\<close>

lemma embedBatches_keeps:
  "bm25 (embedBatches env cs i w) = bm25 w
   \<and> chunkIdToChunk (embedBatches env cs i w) = chunkIdToChunk w"
proof (induction env cs i w rule: embedBatches.induct)
  case (1 env cs i w)
  note eq = embedBatches.simps[of env cs i w]
  show ?case
  proof (cases "i < length cs")
    case False
    then show ?thesis by (simp add: eq)
  next
    case True
    show ?thesis
    proof (cases "embedTexts env i (map chunk_text (slice cs i (i + 10)))")
      case None
      then show ?thesis
        using True "1.IH"(1)[OF True refl None] by (simp add: eq Let_def)
    next
      case (Some vecs)
      then show ?thesis
        using True "1.IH"(2)[OF True refl Some] by (simp add: eq postMessage_def Let_def)
    qed
  qed
qed

lemma handleIngest_commits:
  assumes "parseAndChunk (segmenter env) files method = Inr cs"
  shows "\<exists>w'. handleIngest env files method retrieval w = Inr w'
       \<and> chunkIdToChunk w' = foldl (\<lambda>m c. AList.update (chunk_id c) c m) (chunkIdToChunk w) cs
       \<and> bm25 w' = (if retrieval = Dense then bm25 w else addDocuments (bm25 w) (map docOfChunk cs))"
  by (cases retrieval)
     (simp_all add: handleIngest_def assms Let_def buildBM25_def postMessage_def ensureEmbedder_def
        embedBatches_keeps split: option.splits)

lemma parseAndChunk_cat:
  "parseAndChunk seg [\<lparr>f_path = ''doc1'', f_text = ''the cat sat on the mat''\<rparr>] (Some (FixedTokens 10))
   = Inr [\<lparr>chunk_id = ''doc1:0-22'', chunk_docId = ''doc1'',
            chunk_text = ''the cat sat on the mat'', charStart = 0, charEnd = 22\<rparr>]"
  by (simp add: chunkFile_def chunk_cat_mat)

lemma parseAndChunk_cat_dog:
  "parseAndChunk seg
     [\<lparr>f_path = ''doc1'', f_text = ''the cat sat on the mat''\<rparr>,
      \<lparr>f_path = ''doc2'', f_text = ''the dog sat on the log''\<rparr>] (Some (FixedTokens 10))
   = Inr [\<lparr>chunk_id = ''doc1:0-22'', chunk_docId = ''doc1'',
            chunk_text = ''the cat sat on the mat'', charStart = 0, charEnd = 22\<rparr>,
          \<lparr>chunk_id = ''doc2:0-22'', chunk_docId = ''doc2'',
            chunk_text = ''the dog sat on the log'', charStart = 0, charEnd = 22\<rparr>]"
  by (simp add: chunkFile_def chunk_cat_mat chunk_dog_log)

text \<open>
  Claim C3. After the ingest of \<open>doc1 = "the cat sat on the mat"\<close> and
  \<open>doc2 = "the dog sat on the log"\<close> with \<open>fixed_tokens\<close>, \<open>maxTokens = 10\<close>, each
  document is one chunk, and the search for \<open>"cat"\<close> returns the chunk of \<open>doc1\<close>
  first, with the strictly positive score \<open>ln 2\<close>. The chunk of \<open>doc2\<close> holds no term
  of the query and gets no contribution: it has no entry in the result, and its
  score, read as the source reads a score (\<^verbatim>\<open>scores.get(docId) ?? 0\<close>), is \<open>0\<close>.
\<close>

theorem cat_dog_scenario:
  "(case handleIngest env
           [\<lparr>f_path = ''doc1'', f_text = ''the cat sat on the mat''\<rparr>,
            \<lparr>f_path = ''doc2'', f_text = ''the dog sat on the log''\<rparr>]
           (Some (FixedTokens 10)) Sparse newWorker of
      Inl e \<Rightarrow> False
    | Inr w \<Rightarrow>
        map fst (chunkIdToChunk w) = [''doc1:0-22'', ''doc2:0-22'']
        \<and> (case search (bm25 w) ''cat'' 10 of
              Inl e \<Rightarrow> False
            | Inr results \<Rightarrow>
                results = [(''doc1:0-22'', ln 2)] \<and> (0 :: real) < ln 2
                \<and> (case map_of results ''doc2:0-22'' of None \<Rightarrow> 0 | Some s \<Rightarrow> s) = 0))"
proof -
  obtain w where w:
    "handleIngest env
           [\<lparr>f_path = ''doc1'', f_text = ''the cat sat on the mat''\<rparr>,
            \<lparr>f_path = ''doc2'', f_text = ''the dog sat on the log''\<rparr>]
           (Some (FixedTokens 10)) Sparse newWorker = Inr w"
    "chunkIdToChunk w = foldl (\<lambda>m c. AList.update (chunk_id c) c m) (chunkIdToChunk newWorker)
       [\<lparr>chunk_id = ''doc1:0-22'', chunk_docId = ''doc1'',
            chunk_text = ''the cat sat on the mat'', charStart = 0, charEnd = 22\<rparr>,
          \<lparr>chunk_id = ''doc2:0-22'', chunk_docId = ''doc2'',
            chunk_text = ''the dog sat on the log'', charStart = 0, charEnd = 22\<rparr>]"
    "bm25 w = addDocuments (bm25 newWorker) (map docOfChunk
       [\<lparr>chunk_id = ''doc1:0-22'', chunk_docId = ''doc1'',
            chunk_text = ''the cat sat on the mat'', charStart = 0, charEnd = 22\<rparr>,
          \<lparr>chunk_id = ''doc2:0-22'', chunk_docId = ''doc2'',
            chunk_text = ''the dog sat on the log'', charStart = 0, charEnd = 22\<rparr>])"
    using handleIngest_commits[OF parseAndChunk_cat_dog, of env Sparse newWorker] by auto
  have ids: "map fst (chunkIdToChunk w) = [''doc1:0-22'', ''doc2:0-22'']"
    by (simp add: w(2) newWorker_def)
  have found: "search (bm25 w) ''cat'' 10 = Inr [(''doc1:0-22'', ln 2)]"
    by (simp add: w(3) newWorker_def docOfChunk_def cat_dog_search)
  show ?thesis
    by (simp add: w(1) ids found)
qed

text \<open>
  Claim C7, as amended. Whatever the embedding provider does (loading fails or
  succeeds, any batch throws or not), an ingest whose chunking succeeds commits its
  chunks to the chunk map; in the modes \<open>sparse\<close> and \<open>hybrid\<close> it also commits them to
  the sparse index, which afterwards is the index \<open>addDocuments\<close> builds from the
  chunks. In the mode \<open>dense\<close> the sparse index is left as it was: the source builds
  it under the guard \<^verbatim>\<open>retrieval === "sparse" || retrieval === "hybrid"\<close> only.
\<close>

theorem ingest_commits:
  assumes "parseAndChunk (segmenter env) files method = Inr cs"
  shows "\<exists>w'. handleIngest env files method retrieval w = Inr w'
       \<and> chunkIdToChunk w' = foldl (\<lambda>m c. AList.update (chunk_id c) c m) (chunkIdToChunk w) cs
       \<and> bm25 w' = (if retrieval = Dense then bm25 w
                     else addDocuments (bm25 w) (map docOfChunk cs))"
  using handleIngest_commits[OF assms] .

theorem ingest_commits_witness:
  "parseAndChunk (segmenter \<lparr>segmenter = None, loadEmbedder = Some ''Error: offline'',
                              embedTexts = (\<lambda>i texts. None)\<rparr>)
      [\<lparr>f_path = ''doc1'', f_text = ''the cat sat on the mat''\<rparr>] (Some (FixedTokens 10))
    = Inr [\<lparr>chunk_id = ''doc1:0-22'', chunk_docId = ''doc1'',
            chunk_text = ''the cat sat on the mat'', charStart = 0, charEnd = 22\<rparr>]
   \<and> (\<exists>w'. handleIngest \<lparr>segmenter = None, loadEmbedder = Some ''Error: offline'',
                          embedTexts = (\<lambda>i texts. None)\<rparr>
              [\<lparr>f_path = ''doc1'', f_text = ''the cat sat on the mat''\<rparr>] (Some (FixedTokens 10))
              Hybrid newWorker = Inr w'
         \<and> map fst (chunkIdToChunk w') = [''doc1:0-22'']
         \<and> bm25 w' = addDocuments newBM25Index
                        [\<lparr>doc_id = ''doc1:0-22'', doc_text = ''the cat sat on the mat''\<rparr>])"
proof -
  have chunked:
    "parseAndChunk (segmenter \<lparr>segmenter = None, loadEmbedder = Some ''Error: offline'',
                              embedTexts = (\<lambda>i texts. None)\<rparr>)
      [\<lparr>f_path = ''doc1'', f_text = ''the cat sat on the mat''\<rparr>] (Some (FixedTokens 10))
    = Inr [\<lparr>chunk_id = ''doc1:0-22'', chunk_docId = ''doc1'',
            chunk_text = ''the cat sat on the mat'', charStart = 0, charEnd = 22\<rparr>]"
    by (rule parseAndChunk_cat)
  obtain w' where w':
    "handleIngest \<lparr>segmenter = None, loadEmbedder = Some ''Error: offline'',
                          embedTexts = (\<lambda>i texts. None)\<rparr>
              [\<lparr>f_path = ''doc1'', f_text = ''the cat sat on the mat''\<rparr>] (Some (FixedTokens 10))
              Hybrid newWorker = Inr w'"
    "chunkIdToChunk w' = foldl (\<lambda>m c. AList.update (chunk_id c) c m) (chunkIdToChunk newWorker)
        [\<lparr>chunk_id = ''doc1:0-22'', chunk_docId = ''doc1'',
            chunk_text = ''the cat sat on the mat'', charStart = 0, charEnd = 22\<rparr>]"
    "bm25 w' = (if Hybrid = Dense then bm25 newWorker
                else addDocuments (bm25 newWorker) (map docOfChunk
        [\<lparr>chunk_id = ''doc1:0-22'', chunk_docId = ''doc1'',
            chunk_text = ''the cat sat on the mat'', charStart = 0, charEnd = 22\<rparr>]))"
    using ingest_commits[OF chunked, of Hybrid newWorker] by (elim exE conjE)
  have ids: "map fst (chunkIdToChunk w') = [''doc1:0-22'']"
    by (simp add: w'(2) newWorker_def)
  have idx: "bm25 w' = addDocuments newBM25Index
                        [\<lparr>doc_id = ''doc1:0-22'', doc_text = ''the cat sat on the mat''\<rparr>]"
    by (simp add: w'(3) newWorker_def docOfChunk_def)
  show ?thesis
    by (intro conjI exI[of _ w'] chunked w'(1) ids idx)
qed

text \<open>
  Claim C7 as stated fails in the mode \<open>dense\<close>: with an embedding model that fails to
  load, the ingest of one document commits its chunk to the chunk map and nothing to
  the sparse index, and a sparse search for a word of the document finds nothing.
\<close>

theorem dense_ingest_counterexample:
  "(case handleIngest \<lparr>segmenter = None, loadEmbedder = Some ''Error: offline'',
                        embedTexts = (\<lambda>i texts. None)\<rparr>
           [\<lparr>f_path = ''doc1'', f_text = ''the cat sat on the mat''\<rparr>] (Some (FixedTokens 10))
           Dense newWorker of
      Inl e \<Rightarrow> False
    | Inr w \<Rightarrow>
        map fst (chunkIdToChunk w) = [''doc1:0-22'']
        \<and> bm25 w = newBM25Index
        \<and> search (bm25 w) ''cat'' 8 = Inr [])"
proof -
  obtain w where w:
    "handleIngest \<lparr>segmenter = None, loadEmbedder = Some ''Error: offline'',
                        embedTexts = (\<lambda>i texts. None)\<rparr>
           [\<lparr>f_path = ''doc1'', f_text = ''the cat sat on the mat''\<rparr>] (Some (FixedTokens 10))
           Dense newWorker = Inr w"
    "chunkIdToChunk w = foldl (\<lambda>m c. AList.update (chunk_id c) c m) (chunkIdToChunk newWorker)
        [\<lparr>chunk_id = ''doc1:0-22'', chunk_docId = ''doc1'',
            chunk_text = ''the cat sat on the mat'', charStart = 0, charEnd = 22\<rparr>]"
    "bm25 w = bm25 newWorker"
    using handleIngest_commits[OF parseAndChunk_cat, of _ Dense newWorker] by auto
  have ids: "map fst (chunkIdToChunk w) = [''doc1:0-22'']"
    by (simp add: w(2) newWorker_def)
  have idx: "bm25 w = newBM25Index"
    by (simp add: w(3) newWorker_def)
  have "search newBM25Index ''cat'' 8 = Inr []"
    by (simp add: search_def scoreTerms_no_vocab newBM25Index_def sortByScoreDesc_def sliceTo_def)
  then show ?thesis
    by (simp add: w(1) ids idx)
qed

section \<open>A search with a result\<close>

theorem search_scores_positive_witness:
  "\<exists>results. search (foldl addDocuments newBM25Index
                  [ [\<lparr>doc_id = ''doc1:0-22'', doc_text = ''the cat sat on the mat''\<rparr>,
                    \<lparr>doc_id = ''doc2:0-22'', doc_text = ''the dog sat on the log''\<rparr>] ]) ''cat'' 10
               = Inr results
     \<and> results = [(''doc1:0-22'', ln 2)]
     \<and> (\<forall>r \<in> set results. 0 < snd r
           \<and> (\<exists>t \<in> set (tokenize ''cat'').
                 \<exists>doc \<in> set (concat [ [\<lparr>doc_id = ''doc1:0-22'', doc_text = ''the cat sat on the mat''\<rparr>,
                    \<lparr>doc_id = ''doc2:0-22'', doc_text = ''the dog sat on the log''\<rparr>] ]).
                   doc_id doc = fst r \<and> t \<in> set (tokenize (doc_text doc))))"
  using search_scores_positive[of "[ [\<lparr>doc_id = ''doc1:0-22'', doc_text = ''the cat sat on the mat''\<rparr>,
                    \<lparr>doc_id = ''doc2:0-22'', doc_text = ''the dog sat on the log''\<rparr>] ]" "''cat''" 10]
  by (simp add: cat_dog_search)

section \<open>Fused scores\<close>

lemma rrf_fold_lookup:
  "map_of (foldl (\<lambda>fused e. AList.update (snd e)
                         ((case map_of fused (snd e) of None \<Rightarrow> 0 | Some s \<Rightarrow> s)
                            + 1 / (kRRF + real (fst e) + 1)) fused)
           m (enumerate n ranking)) c
   = (if c \<in> set ranking \<or> map_of m c \<noteq> None
      then Some ((case map_of m c of None \<Rightarrow> 0 | Some s \<Rightarrow> s) + contribSum n ranking c)
      else None)"
proof (induction ranking arbitrary: m n)
  case Nil
  then show ?case by (auto simp: contribSum_def)
next
  case (Cons x xs)
  show ?case
    by (simp add: Cons.IH contribSum_def update_conv' split: option.splits)
qed

lemma rrf_fold_distinct:
  "distinct (map fst m) \<Longrightarrow>
   distinct (map fst (foldl (\<lambda>fused e. AList.update (snd e)
                         ((case map_of fused (snd e) of None \<Rightarrow> 0 | Some s \<Rightarrow> s)
                            + 1 / (kRRF + real (fst e) + 1)) fused)
           m es))"
  by (induction es arbitrary: m) (auto simp: distinct_update)

lemma rrfAccumulate_lookup:
  "map_of (rrfAccumulate ranking m) c
   = (if c \<in> set ranking \<or> map_of m c \<noteq> None
      then Some ((case map_of m c of None \<Rightarrow> 0 | Some s \<Rightarrow> s) + contribSum 0 ranking c)
      else None)"
  unfolding rrfAccumulate_def by (rule rrf_fold_lookup)

lemma contribSum_notin: "c \<notin> set ranking \<Longrightarrow> contribSum n ranking c = 0"
  by (induction ranking arbitrary: n) (auto simp: contribSum_def)

lemma contribSum_Cons:
  "contribSum n (x # xs) c
   = (if x = c then 1 / (kRRF + real n + 1) else 0) + contribSum (Suc n) xs c"
  by (simp add: contribSum_def)

lemma rrfFuse_lookup:
  "map_of (rrfFuse dense sparse) c
   = (if c \<in> set dense \<union> set sparse
      then Some (contribSum 0 dense c + contribSum 0 sparse c) else None)"
  by (auto simp: rrfFuse_def rrfAccumulate_lookup contribSum_notin)

lemma rrfFuse_distinct: "distinct (map fst (rrfFuse dense sparse))"
  by (simp add: rrfFuse_def rrfAccumulate_def rrf_fold_distinct)

lemma rankOf_None: "rankOf c ranking = None \<longleftrightarrow> c \<notin> set ranking"
  by (induction ranking) auto

lemma contribSum_distinct:
  "distinct ranking \<Longrightarrow>
   contribSum n ranking c
   = (case rankOf c ranking of None \<Rightarrow> 0 | Some i \<Rightarrow> 1 / (60 + real (n + i) + 1))"
proof (induction ranking arbitrary: n)
  case Nil
  then show ?case by (simp add: contribSum_def)
next
  case (Cons x xs)
  show ?case
  proof (cases "x = c")
    case True
    then have "c \<notin> set xs" using Cons.prems by simp
    then show ?thesis
      using True by (simp add: contribSum_Cons contribSum_notin kRRF_def)
  next
    case False
    then show ?thesis
      using Cons.IH[of "Suc n"] Cons.prems
      by (simp add: contribSum_Cons split: option.splits)
  qed
qed

lemma contribSum_spec: "distinct ranking \<Longrightarrow> contribSum 0 ranking c = spec_contribution ranking c"
  by (simp add: contribSum_distinct spec_contribution_def split: option.splits)

lemma rankOf_nth: "distinct ranking \<Longrightarrow> i < length ranking \<Longrightarrow> rankOf (ranking ! i) ranking = Some i"
proof (induction ranking arbitrary: i)
  case Nil
  then show ?case by simp
next
  case (Cons x xs)
  then show ?case
    by (cases i) (auto simp: nth_mem)
qed

lemma set_rrfRank: "set (rrfRank dense sparse topK) \<subseteq> set (rrfFuse dense sparse)"
  using set_sliceTo[of "sortByScoreDesc (rrfFuse dense sparse)" topK]
  by (simp add: rrfRank_def sortByScoreDesc_def)

text \<open>
  The rankings the hybrid search fuses hold every chunk once: they are the keys of
  the map of dense scores and of the map of sparse scores.
\<close>

lemma scorePostings_distinct:
  "distinct (map fst scores) \<Longrightarrow> scorePostings idx avgdl idf ps scores = Inr scores' \<Longrightarrow>
   distinct (map fst scores')"
proof (induction ps arbitrary: scores)
  case Nil
  then show ?case by simp
next
  case (Cons p ps)
  from Cons.prems(2) obtain x where x: "postingScore idx avgdl idf p = Inr x"
    "scorePostings idx avgdl idf ps
       (AList.update (docId p) ((case map_of scores (docId p) of None \<Rightarrow> 0 | Some s \<Rightarrow> s) + x)
          scores) = Inr scores'"
    by (auto split: sum.splits)
  show ?case
    using Cons.prems(1) by (intro Cons.IH[OF _ x(2)] distinct_update)
qed

lemma scoreTerms_distinct:
  "distinct (map fst scores) \<Longrightarrow> scoreTerms idx qs scores = Inr scores' \<Longrightarrow>
   distinct (map fst scores')"
proof (induction qs arbitrary: scores)
  case Nil
  then show ?case by simp
next
  case (Cons q qs)
  show ?case
  proof (cases "map_of (vocab idx) q")
    case None
    then show ?thesis using Cons by simp
  next
    case (Some ps)
    from Cons.prems(2) obtain sc where sc:
      "scorePostings idx (avgDocLen idx) (idfOf (totalDocs idx) (length ps)) ps scores = Inr sc"
      "scoreTerms idx qs sc = Inr scores'"
      by (auto simp: Some split: sum.splits)
    show ?thesis
      using scorePostings_distinct[OF Cons.prems(1) sc(1)] sc(2) by (rule Cons.IH)
  qed
qed

lemma sortByScoreDesc_distinct:
  "distinct (map fst entries) \<Longrightarrow> distinct (map fst (sortByScoreDesc entries))"
proof -
  assume d: "distinct (map fst entries)"
  have "mset (map fst (sortByScoreDesc entries)) = mset (map fst entries)"
    by (simp add: sortByScoreDesc_def)
  then show ?thesis
    using d mset_eq_imp_distinct_iff by blast
qed

lemma sliceTo_distinct: "distinct (map f xs) \<Longrightarrow> distinct (map f (sliceTo xs k))"
  by (simp add: sliceTo_def take_map[symmetric] distinct_take)

lemma search_distinct: "search idx query topK = Inr results \<Longrightarrow> distinct (map fst results)"
proof -
  assume r: "search idx query topK = Inr results"
  then obtain scores where sc: "scoreTerms idx (tokenize query) [] = Inr scores"
    "results = sliceTo (sortByScoreDesc scores) topK"
    by (auto simp: search_def split: sum.splits)
  have "distinct (map fst scores)"
    using scoreTerms_distinct[OF _ sc(1)] by simp
  then show ?thesis
    unfolding sc(2) by (intro sliceTo_distinct sortByScoreDesc_distinct)
qed

lemma hybrid_rankings_distinct:
  assumes "distinct (map fst denseScores)" "search (bm25 w) query (max (topK * 4) 40) = Inr sparse"
  shows "distinct (map fst (sortByScoreDesc denseScores)) \<and> distinct (map fst sparse)"
  using assms sortByScoreDesc_distinct search_distinct by blast

text \<open>
  Claim C5. For a dense and a sparse ranking that hold every chunk once (as those of
  the hybrid search do), the fused score of a chunk is the sum of its contributions over the
  rankings that hold it, an entry at zero-based position \<open>i\<close> contributing
  \<open>1 / (60 + i + 1)\<close>; a chunk in one ranking only has that ranking's contribution, a
  chunk in neither has no fused score. Every entry of the ranked result carries that
  sum. A chunk at sparse rank 0 and dense rank 4 has the fused score
  \<open>1 / 61 + 1 / 65\<close>.
\<close>

theorem rrf_fused_score:
  assumes "distinct dense" "distinct sparse"
  shows "map_of (rrfFuse dense sparse) c
         = (if c \<in> set dense \<union> set sparse
            then Some (spec_contribution dense c + spec_contribution sparse c) else None)
       \<and> (\<forall>r \<in> set (rrfRank dense sparse topK).
             snd r = spec_contribution dense (fst r) + spec_contribution sparse (fst r))
       \<and> (0 < length sparse \<and> sparse ! 0 = c \<and> 4 < length dense \<and> dense ! 4 = c
            \<longrightarrow> map_of (rrfFuse dense sparse) c = Some (1 / 61 + 1 / 65))"
proof -
  have look: "map_of (rrfFuse dense sparse) x
         = (if x \<in> set dense \<union> set sparse
            then Some (spec_contribution dense x + spec_contribution sparse x) else None)" for x
    using assms by (simp add: rrfFuse_lookup contribSum_spec)
  have ranked: "snd r = spec_contribution dense (fst r) + spec_contribution sparse (fst r)"
    if "r \<in> set (rrfRank dense sparse topK)" for r
  proof -
    have "r \<in> set (rrfFuse dense sparse)"
      using that set_rrfRank by blast
    then have "map_of (rrfFuse dense sparse) (fst r) = Some (snd r)"
      using map_of_eq_Some_iff[OF rrfFuse_distinct, of dense sparse "fst r" "snd r"] by simp
    then show ?thesis
      by (simp add: look split: if_splits)
  qed
  have special: "map_of (rrfFuse dense sparse) c = Some (1 / 61 + 1 / 65)"
    if "0 < length sparse" "sparse ! 0 = c" "4 < length dense" "dense ! 4 = c"
  proof -
    have "rankOf c sparse = Some 0" "rankOf c dense = Some 4"
      using rankOf_nth[OF assms(2) that(1)] rankOf_nth[OF assms(1) that(3)] that by simp_all
    moreover have "c \<in> set dense"
      using that(3,4) nth_mem by blast
    ultimately show ?thesis
      by (simp add: look spec_contribution_def)
  qed
  show ?thesis
    using look ranked special by blast
qed

theorem rrf_fused_score_witness:
  "distinct [''a'', ''b'', ''c'', ''d'', ''e''] \<and> distinct [''e'', ''f'']
   \<and> map_of (rrfFuse [''a'', ''b'', ''c'', ''d'', ''e''] [''e'', ''f'']) ''e'' = Some (1 / 61 + 1 / 65)
   \<and> map_of (rrfFuse [''a'', ''b'', ''c'', ''d'', ''e''] [''e'', ''f'']) ''f'' = Some (1 / 62)
   \<and> map_of (rrfFuse [''a'', ''b'', ''c'', ''d'', ''e''] [''e'', ''f'']) ''a'' = Some (1 / 61)"
proof -
  have d: "distinct [''a'', ''b'', ''c'', ''d'', ''e'']" "distinct [''e'', ''f'']"
    by simp_all
  show ?thesis
    using rrf_fused_score[OF d, of "''e''" 10] rrf_fused_score[OF d, of "''f''" 10]
      rrf_fused_score[OF d, of "''a''" 10]
    by (simp add: spec_contribution_def)
qed

section \<open>Symmetry of the fusion\<close>

lemma rrfFuse_sym_lookup: "map_of (rrfFuse a b) = map_of (rrfFuse b a)"
  by (rule ext) (simp add: rrfFuse_lookup Un_commute add.commute)

lemma rrfFuse_sym_set: "set (rrfFuse a b) = set (rrfFuse b a)"
  using map_of_inject_set[OF rrfFuse_distinct rrfFuse_distinct, of a b b a] rrfFuse_sym_lookup
  by simp

lemma rrfFuse_distinct_entries: "distinct (rrfFuse a b)"
  using rrfFuse_distinct[of a b] by (rule distinct_map[THEN iffD1, THEN conjunct1])

lemma rrfFuse_sym_mset: "mset (rrfFuse a b) = mset (rrfFuse b a)"
  using set_eq_iff_mset_eq_distinct[OF rrfFuse_distinct_entries rrfFuse_distinct_entries, of a b b a]
    rrfFuse_sym_set by simp

lemma map_sort_key: "map f (sort_key f xs) = sort (map f xs)"
  by (rule properties_for_sort[symmetric]) simp_all

lemma sorted_scores_mset:
  assumes "mset xs = mset ys"
  shows "map snd (sortByScoreDesc xs) = map snd (sortByScoreDesc ys)"
proof -
  have "mset (map (\<lambda>e. - snd e) xs) = mset (map (\<lambda>e. - snd e) ys)"
    using assms by (metis mset_map)
  then have "sort (map (\<lambda>e. - snd e) xs) = sort (map (\<lambda>e. - snd e) ys)"
    by (intro properties_for_sort) simp_all
  then have "map (\<lambda>e. - snd e) (sortByScoreDesc xs) = map (\<lambda>e. - snd e) (sortByScoreDesc ys)"
    by (simp add: sortByScoreDesc_def map_sort_key)
  then have "map uminus (map (\<lambda>e. - snd e) (sortByScoreDesc xs))
           = map uminus (map (\<lambda>e. - snd e) (sortByScoreDesc ys))"
    by simp
  then show ?thesis
    by (simp add: comp_def)
qed

lemma map_sliceTo: "map f (sliceTo xs k) = sliceTo (map f xs) k"
  by (simp add: sliceTo_def take_map)

lemma sliceTo_all: "int (length xs) \<le> k \<Longrightarrow> sliceTo xs k = xs"
  by (simp add: sliceTo_def)

lemma sorted_inj_eq:
  assumes "mset xs = mset ys" "inj_on snd (set xs)"
  shows "sortByScoreDesc xs = sortByScoreDesc ys"
proof -
  have "inj_on (\<lambda>e. - snd e) (set xs)"
    using assms(2) by (auto simp: inj_on_def)
  then show ?thesis
    unfolding sortByScoreDesc_def using assms(1)
    by (intro sort_key_inj_key_eq) simp_all
qed

lemma take_below_threshold:
  fixes f :: "'a \<Rightarrow> real"
  assumes "sorted (map f xs)" "0 < n" "n < length xs" "f (xs ! (n - 1)) \<noteq> f (xs ! n)"
  shows "set (take n xs) = {e \<in> set xs. f e < f (xs ! n)}"
proof -
  have mono: "f (xs ! i) \<le> f (xs ! j)" if "i \<le> j" "j < length xs" for i j
    using sorted_nth_mono[OF assms(1), of i j] that by simp
  have gap: "f (xs ! (n - 1)) < f (xs ! n)"
    using mono[of "n - 1" n] assms(3,4) by simp
  show ?thesis
  proof (intro set_eqI iffI)
    fix e
    assume "e \<in> set (take n xs)"
    then obtain i where i: "i < n" "i < length xs" "e = xs ! i"
      using assms(3) by (auto simp: in_set_conv_nth)
    have "f (xs ! i) \<le> f (xs ! (n - 1))"
      using i(1) assms(3) by (intro mono) simp_all
    then show "e \<in> {e \<in> set xs. f e < f (xs ! n)}"
      using gap i(2,3) by auto
  next
    fix e
    assume "e \<in> {e \<in> set xs. f e < f (xs ! n)}"
    then obtain i where i: "i < length xs" "e = xs ! i" "f (xs ! i) < f (xs ! n)"
      by (auto simp: in_set_conv_nth)
    have "i < n"
    proof (rule ccontr)
      assume "\<not> i < n"
      then have "f (xs ! n) \<le> f (xs ! i)"
        using i(1) by (intro mono) simp_all
      then show False using i(3) by simp
    qed
    then show "e \<in> set (take n xs)"
      using i(1,2) by (auto simp: in_set_conv_nth)
  qed
qed

lemma take_length_take: "take (length (take m xs)) xs = take m xs"
  by (cases "m \<le> length xs") simp_all

lemma sliceTo_take: "sliceTo xs k = take (length (sliceTo xs k)) xs"
  by (cases "k < 0") (simp_all only: sliceTo_def if_True if_False take_length_take)

lemma length_sliceTo_le: "length (sliceTo xs k) \<le> length xs"
  by (auto simp: sliceTo_def)

lemma length_sliceTo_eq: "length xs = length ys \<Longrightarrow> length (sliceTo xs k) = length (sliceTo ys k)"
  by (simp add: sliceTo_def)

lemma sorted_sortByScoreDesc: "sorted (map (\<lambda>e. - snd e) (sortByScoreDesc xs))"
  by (simp add: sortByScoreDesc_def)

lemma cut_between_scores:
  assumes m: "mset xs = mset ys"
    and n: "n = length (sliceTo (sortByScoreDesc xs) k)"
    and c: "n = 0 \<or> n = length xs
            \<or> map snd (sortByScoreDesc xs) ! (n - 1) \<noteq> map snd (sortByScoreDesc xs) ! n"
  shows "set (sliceTo (sortByScoreDesc xs) k) = set (sliceTo (sortByScoreDesc ys) k)"
proof -
  let ?sx = "sortByScoreDesc xs" and ?sy = "sortByScoreDesc ys"
  have len: "length xs = length ys"
    using m by (metis size_mset)
  have lens: "length ?sx = length xs" "length ?sy = length ys"
    by (simp_all add: sortByScoreDesc_def)
  have sets: "set ?sx = set ?sy"
    using m by (simp add: sortByScoreDesc_def) (metis set_mset_mset)
  have scores: "map snd ?sx = map snd ?sy"
    using m by (rule sorted_scores_mset)
  have n': "n = length (sliceTo ?sy k)"
    using n length_sliceTo_eq[of ?sx ?sy k] lens len by simp
  have tx: "sliceTo ?sx k = take n ?sx" and ty: "sliceTo ?sy k = take n ?sy"
    using sliceTo_take[of ?sx k] sliceTo_take[of ?sy k] n n' by simp_all
  have nle: "n \<le> length xs"
    using n lens length_sliceTo_le[of ?sx k] by simp
  consider "n = 0" | "n = length xs" | "0 < n" "n < length xs"
      "map snd ?sx ! (n - 1) \<noteq> map snd ?sx ! n"
    using c nle by fastforce
  then show ?thesis
  proof cases
    case 1
    then show ?thesis by (simp add: tx ty)
  next
    case 2
    then show ?thesis using sets lens len by (simp add: tx ty)
  next
    case 3
    have ix: "- snd (?sx ! (n - 1)) \<noteq> - snd (?sx ! n)"
      using 3 lens by simp
    have "map snd ?sy ! (n - 1) \<noteq> map snd ?sy ! n"
      using 3(3) scores by simp
    then have iy: "- snd (?sy ! (n - 1)) \<noteq> - snd (?sy ! n)"
      using 3 lens len by simp
    have "snd (?sx ! n) = snd (?sy ! n)"
      using arg_cong[OF scores, of "\<lambda>l. l ! n"] 3(2) lens len by simp
    then have same: "- snd (?sx ! n) = - snd (?sy ! n)"
      by simp
    have "set (take n ?sx) = {e \<in> set ?sx. - snd e < - snd (?sx ! n)}"
      using 3 lens ix by (intro take_below_threshold sorted_sortByScoreDesc) simp_all
    moreover have "set (take n ?sy) = {e \<in> set ?sy. - snd e < - snd (?sy ! n)}"
      using 3 lens len iy by (intro take_below_threshold sorted_sortByScoreDesc) simp_all
    ultimately show ?thesis
      using sets same by (simp add: tx ty)
  qed
qed

text \<open>
  Claim C8, as amended. Fusing \<open>a\<close> with \<open>b\<close> gives every chunk the fused score that
  fusing \<open>b\<close> with \<open>a\<close> gives it, so the fused entries are the same set, and the
  scores of the top \<open>topK\<close> results are the same list. The results themselves are
  the same set when \<open>topK\<close> is at least the number of fused chunks, the same list
  when no two chunks have the same fused score, and the same set whenever the
  scores on the two sides of the cut differ: for \<open>0 < topK\<close> below the number of
  fused chunks, when the sorted scores at the positions \<open>topK - 1\<close> and \<open>topK\<close> differ;
  and for any \<open>topK\<close>, a negative one too, when the cut is at the start, at the end, or
  between two different scores. Only a tie across the cut can change the result.
\<close>

theorem rrf_symmetry:
  "map_of (rrfFuse a b) = map_of (rrfFuse b a)
   \<and> set (rrfFuse a b) = set (rrfFuse b a)
   \<and> map snd (rrfRank a b topK) = map snd (rrfRank b a topK)
   \<and> (int (length (rrfFuse a b)) \<le> topK \<longrightarrow> set (rrfRank a b topK) = set (rrfRank b a topK))
   \<and> (inj_on snd (set (rrfFuse a b)) \<longrightarrow> rrfRank a b topK = rrfRank b a topK)
   \<and> (0 < topK \<and> topK < int (length (rrfFuse a b))
        \<and> map snd (sortByScoreDesc (rrfFuse a b)) ! (nat topK - 1)
            \<noteq> map snd (sortByScoreDesc (rrfFuse a b)) ! nat topK
      \<longrightarrow> set (rrfRank a b topK) = set (rrfRank b a topK))
   \<and> (length (rrfRank a b topK) = 0
        \<or> length (rrfRank a b topK) = length (rrfFuse a b)
        \<or> map snd (sortByScoreDesc (rrfFuse a b)) ! (length (rrfRank a b topK) - 1)
            \<noteq> map snd (sortByScoreDesc (rrfFuse a b)) ! length (rrfRank a b topK)
      \<longrightarrow> set (rrfRank a b topK) = set (rrfRank b a topK))"
proof -
  have len: "length (rrfFuse a b) = length (rrfFuse b a)"
    using rrfFuse_sym_mset[of a b] by (metis size_mset)
  have scores: "map snd (rrfRank a b topK) = map snd (rrfRank b a topK)"
    by (simp add: rrfRank_def map_sliceTo sorted_scores_mset[OF rrfFuse_sym_mset])
  have full: "set (rrfRank a b topK) = set (rrfRank b a topK)"
    if "int (length (rrfFuse a b)) \<le> topK"
  proof -
    have "rrfRank a b topK = sortByScoreDesc (rrfFuse a b)"
      using that by (simp add: rrfRank_def sliceTo_all sortByScoreDesc_def)
    moreover have "rrfRank b a topK = sortByScoreDesc (rrfFuse b a)"
      using that len by (simp add: rrfRank_def sliceTo_all sortByScoreDesc_def)
    ultimately show ?thesis
      by (simp add: sortByScoreDesc_def rrfFuse_sym_set)
  qed
  have noties: "rrfRank a b topK = rrfRank b a topK" if "inj_on snd (set (rrfFuse a b))"
    by (simp add: rrfRank_def sorted_inj_eq[OF rrfFuse_sym_mset that])
  have cut: "set (rrfRank a b topK) = set (rrfRank b a topK)"
    if "length (rrfRank a b topK) = 0
        \<or> length (rrfRank a b topK) = length (rrfFuse a b)
        \<or> map snd (sortByScoreDesc (rrfFuse a b)) ! (length (rrfRank a b topK) - 1)
            \<noteq> map snd (sortByScoreDesc (rrfFuse a b)) ! length (rrfRank a b topK)"
    unfolding rrfRank_def
    using that by (intro cut_between_scores[OF rrfFuse_sym_mset refl]) (simp add: rrfRank_def)
  have inside: "set (rrfRank a b topK) = set (rrfRank b a topK)"
    if "0 < topK" "topK < int (length (rrfFuse a b))"
       "map snd (sortByScoreDesc (rrfFuse a b)) ! (nat topK - 1)
            \<noteq> map snd (sortByScoreDesc (rrfFuse a b)) ! nat topK"
  proof -
    have "length (rrfRank a b topK) = nat topK"
      using that(1,2) by (simp add: rrfRank_def sliceTo_def sortByScoreDesc_def)
    then show ?thesis
      using cut that(3) by simp
  qed
  show ?thesis
    using rrfFuse_sym_lookup rrfFuse_sym_set scores full noties inside cut by blast
qed

lemma rrfFuse_xy_zy:
  "rrfFuse [''x'', ''y''] [''z'', ''y'']
   = [(''x'', 1 / 61), (''y'', 1 / 62 + 1 / 62), (''z'', 1 / 61)]"
  by (simp add: rrfFuse_def rrfAccumulate_def enumerate_eq_zip kRRF_def)

lemma rrfFuse_zy_xy:
  "rrfFuse [''z'', ''y''] [''x'', ''y'']
   = [(''z'', 1 / 61), (''y'', 1 / 62 + 1 / 62), (''x'', 1 / 61)]"
  by (simp add: rrfFuse_def rrfAccumulate_def enumerate_eq_zip kRRF_def)

lemma sorted_xy_zy:
  "sortByScoreDesc (rrfFuse [''x'', ''y''] [''z'', ''y''])
   = [(''y'', 1 / 62 + 1 / 62), (''x'', 1 / 61), (''z'', 1 / 61)]"
  by (simp add: rrfFuse_xy_zy sortByScoreDesc_def)

lemma sorted_zy_xy:
  "sortByScoreDesc (rrfFuse [''z'', ''y''] [''x'', ''y''])
   = [(''y'', 1 / 62 + 1 / 62), (''z'', 1 / 61), (''x'', 1 / 61)]"
  by (simp add: rrfFuse_zy_xy sortByScoreDesc_def)

theorem rrf_symmetry_witness:
  "int (length (rrfFuse [''x''] [''y''])) \<le> 2
   \<and> set (rrfRank [''x''] [''y''] 2) = set (rrfRank [''y''] [''x''] 2)
   \<and> set (rrfRank [''x''] [''y''] 2) = {(''x'', 1 / 61), (''y'', 1 / 61)}
   \<and> inj_on snd (set (rrfFuse [''x'', ''y''] [''y'']))
   \<and> rrfRank [''x'', ''y''] [''y''] 1 = rrfRank [''y''] [''x'', ''y''] 1
   \<and> rrfRank [''x'', ''y''] [''y''] 1 = [(''y'', 1 / 62 + 1 / 61)]
   \<and> (0 :: int) < 1 \<and> 1 < int (length (rrfFuse [''x'', ''y''] [''z'', ''y'']))
   \<and> map snd (sortByScoreDesc (rrfFuse [''x'', ''y''] [''z'', ''y''])) ! (nat 1 - 1)
       \<noteq> map snd (sortByScoreDesc (rrfFuse [''x'', ''y''] [''z'', ''y''])) ! nat 1
   \<and> \<not> inj_on snd (set (rrfFuse [''x'', ''y''] [''z'', ''y'']))
   \<and> set (rrfRank [''x'', ''y''] [''z'', ''y''] 1) = set (rrfRank [''z'', ''y''] [''x'', ''y''] 1)
   \<and> rrfRank [''x'', ''y''] [''z'', ''y''] 1 = [(''y'', 1 / 62 + 1 / 62)]
   \<and> length (rrfRank [''x'', ''y''] [''z'', ''y''] (- 2)) = 1
   \<and> set (rrfRank [''x'', ''y''] [''z'', ''y''] (- 2)) = set (rrfRank [''z'', ''y''] [''x'', ''y''] (- 2))"
proof -
  have l: "int (length (rrfFuse [''x''] [''y''])) \<le> 2"
    by (simp add: rrfFuse_def rrfAccumulate_def enumerate_eq_zip)
  have f: "rrfFuse [''x'', ''y''] [''y''] = [(''x'', 1 / 61), (''y'', 1 / 62 + 1 / 61)]"
    by (simp add: rrfFuse_def rrfAccumulate_def enumerate_eq_zip kRRF_def)
  have i: "inj_on snd (set (rrfFuse [''x'', ''y''] [''y'']))"
    by (simp add: f)
  have r: "rrfRank [''x'', ''y''] [''y''] 1 = [(''y'', 1 / 62 + 1 / 61)]"
    by (simp add: rrfRank_def f sortByScoreDesc_def sliceTo_def)
  have s: "set (rrfRank [''x''] [''y''] 2) = {(''x'', 1 / 61), (''y'', 1 / 61)}"
    by (simp add: rrfRank_def rrfFuse_def rrfAccumulate_def sortByScoreDesc_def sliceTo_def
        enumerate_eq_zip kRRF_def)
  have c1: "(0 :: int) < 1" "1 < int (length (rrfFuse [''x'', ''y''] [''z'', ''y'']))"
    by (simp_all add: rrfFuse_xy_zy)
  have c2: "map snd (sortByScoreDesc (rrfFuse [''x'', ''y''] [''z'', ''y''])) ! (nat 1 - 1)
       \<noteq> map snd (sortByScoreDesc (rrfFuse [''x'', ''y''] [''z'', ''y''])) ! nat 1"
    by (simp add: sorted_xy_zy)
  have tie: "\<not> inj_on snd (set (rrfFuse [''x'', ''y''] [''z'', ''y'']))"
    by (auto simp: rrfFuse_xy_zy inj_on_def)
  have r1: "rrfRank [''x'', ''y''] [''z'', ''y''] 1 = [(''y'', 1 / 62 + 1 / 62)]"
    by (simp add: rrfRank_def sorted_xy_zy sliceTo_def)
  have n: "length (rrfRank [''x'', ''y''] [''z'', ''y''] (- 2)) = 1"
    by (simp add: rrfRank_def sorted_xy_zy sliceTo_def)
  have c3: "map snd (sortByScoreDesc (rrfFuse [''x'', ''y''] [''z'', ''y'']))
              ! (length (rrfRank [''x'', ''y''] [''z'', ''y''] (- 2)) - 1)
       \<noteq> map snd (sortByScoreDesc (rrfFuse [''x'', ''y''] [''z'', ''y'']))
              ! length (rrfRank [''x'', ''y''] [''z'', ''y''] (- 2))"
    unfolding n by (simp add: sorted_xy_zy)
  have e1: "set (rrfRank [''x'', ''y''] [''z'', ''y''] 1) = set (rrfRank [''z'', ''y''] [''x'', ''y''] 1)"
    using rrf_symmetry[of "[''x'', ''y'']" "[''z'', ''y'']" 1] c1 c2 by blast
  have e2: "set (rrfRank [''x'', ''y''] [''z'', ''y''] (- 2))
            = set (rrfRank [''z'', ''y''] [''x'', ''y''] (- 2))"
    using rrf_symmetry[of "[''x'', ''y'']" "[''z'', ''y'']" "- 2"] c3 by blast
  have e3: "set (rrfRank [''x''] [''y''] 2) = set (rrfRank [''y''] [''x''] 2)"
    using rrf_symmetry[of "[''x'']" "[''y'']" 2] l by blast
  have e4: "rrfRank [''x'', ''y''] [''y''] 1 = rrfRank [''y''] [''x'', ''y''] 1"
    using rrf_symmetry[of "[''x'', ''y'']" "[''y'']" 1] i by blast
  show ?thesis
    by (intro conjI l e3 s i e4 r c1 c2 tie e1 r1 n e2)
qed

lemma rrfRank_xy: "rrfRank [''x''] [''y''] 1 = [(''x'', 1 / 61)]"
  by (simp add: rrfRank_def rrfFuse_def rrfAccumulate_def sortByScoreDesc_def sliceTo_def
        enumerate_eq_zip kRRF_def)

lemma rrfRank_yx: "rrfRank [''y''] [''x''] 1 = [(''y'', 1 / 61)]"
  by (simp add: rrfRank_def rrfFuse_def rrfAccumulate_def sortByScoreDesc_def sliceTo_def
        enumerate_eq_zip kRRF_def)

text \<open>
  Claim C8 as stated fails where chunks tie at the cut: of two chunks with the same
  fused score the stable sort keeps the one the map \<^verbatim>\<open>fused\<close> got first, which is
  the one of the ranking added first.
\<close>

theorem rrf_symmetry_counterexample:
  "set (rrfRank [''x''] [''y''] 1) \<noteq> set (rrfRank [''y''] [''x''] 1)"
  by (simp add: rrfRank_xy rrfRank_yx)

section \<open>Tokens of a text\<close>










section \<open>Windows of tokens\<close>







lemma loop_step:
  assumes "tStart < n" "int tStart + maxTokens < int n" "0 < int tStart + maxTokens"
  shows "chunkByTokensLoop s d maxTokens overlapTokens tokenStarts tokenEnds n tStart cs
   = chunkByTokensLoop s d maxTokens overlapTokens tokenStarts tokenEnds n
       (tStart + nat (max 1 (maxTokens - max 0 overlapTokens)))
       (cs @ [mkChunk d (slice s (tokenStarts ! tStart) (tokenEnds ! nat (int tStart + maxTokens - 1)))
                (tokenStarts ! tStart) (tokenEnds ! nat (int tStart + maxTokens - 1))])"
  using assms
  by (subst chunkByTokensLoop.simps) (simp add: Let_def min_def)

lemma loop_last:
  assumes "tStart < n" "int n \<le> int tStart + maxTokens"
  shows "chunkByTokensLoop s d maxTokens overlapTokens tokenStarts tokenEnds n tStart cs
   = Inr (cs @ [mkChunk d (slice s (tokenStarts ! tStart) (tokenEnds ! (n - 1)))
                (tokenStarts ! tStart) (tokenEnds ! (n - 1))])"
  using assms
  by (subst chunkByTokensLoop.simps) (simp add: Let_def min_def nat_diff_distrib')

text \<open>
  Claim C4. On a text of exactly 25 whitespace-delimited tokens, \<open>chunkByTokens\<close> with
  \<open>maxTokens = 10\<close> and \<open>overlapTokens = 3\<close> returns exactly four chunks, the windows
  that start at the tokens 0, 7, 14 and 21; the last one is cut to the four tokens
  that remain, and every one of the 25 tokens lies in a window.
\<close>

theorem chunkByTokens_25_tokens:
  assumes "length (matchAllNonSpace 0 s) = 25"
  shows "chunkByTokens s d 10 3
         = Inr [windowChunk s d 0 10, windowChunk s d 7 17, windowChunk s d 14 24,
                windowChunk s d 21 25]
       \<and> (\<forall>j < 25. \<exists>w \<in> {(0, 10), (7, 17), (14, 24), (21, 25 :: nat)}. fst w \<le> j \<and> j < snd w)"
proof -
  let ?ms = "matchAllNonSpace 0 s"
  let ?starts = "map fst ?ms"
  let ?ends = "map (\<lambda>m. fst m + length (snd m)) ?ms"
  have "matchAllNonSpace 0 s \<noteq> []"
    using assms by auto
  then have "chunkByTokens s d 10 3 = chunkByTokensLoop s d 10 3 ?starts ?ends 25 0 []"
    using assms by (simp add: chunkByTokens_def Let_def)
  also have "\<dots> = chunkByTokensLoop s d 10 3 ?starts ?ends 25 7 [windowChunk s d 0 10]"
    using assms by (subst loop_step) (simp_all add: windowChunk_def Let_def)
  also have "\<dots> = chunkByTokensLoop s d 10 3 ?starts ?ends 25 14
                     [windowChunk s d 0 10, windowChunk s d 7 17]"
    using assms by (subst loop_step) (simp_all add: windowChunk_def Let_def)
  also have "\<dots> = chunkByTokensLoop s d 10 3 ?starts ?ends 25 21
                     [windowChunk s d 0 10, windowChunk s d 7 17, windowChunk s d 14 24]"
    using assms by (subst loop_step) (simp_all add: windowChunk_def Let_def)
  also have "\<dots> = Inr [windowChunk s d 0 10, windowChunk s d 7 17, windowChunk s d 14 24,
                       windowChunk s d 21 25]"
    using assms by (subst loop_last) (simp_all add: windowChunk_def Let_def)
  finally have chunks: "chunkByTokens s d 10 3
         = Inr [windowChunk s d 0 10, windowChunk s d 7 17, windowChunk s d 14 24,
                windowChunk s d 21 25]" .
  have "\<exists>w \<in> {(0, 10), (7, 17), (14, 24), (21, 25 :: nat)}. fst w \<le> j \<and> j < snd w"
    if "j < 25" for j :: nat
    using that by (simp; linarith)
  then show ?thesis
    using chunks by blast
qed

lemma alphabet_matches:
  "matchAllNonSpace 0 ''a b c d e f g h i j k l m n o p q r s t u v w x y''
   = [(0, ''a''), (2, ''b''), (4, ''c''), (6, ''d''), (8, ''e''), (10, ''f''), (12, ''g''),
      (14, ''h''), (16, ''i''), (18, ''j''), (20, ''k''), (22, ''l''), (24, ''m''), (26, ''n''),
      (28, ''o''), (30, ''p''), (32, ''q''), (34, ''r''), (36, ''s''), (38, ''t''), (40, ''u''),
      (42, ''v''), (44, ''w''), (46, ''x''), (48, ''y'')]"
  by code_simp

lemma alphabet_tokens:
  "length (matchAllNonSpace 0 ''a b c d e f g h i j k l m n o p q r s t u v w x y'') = 25"
  by (simp add: alphabet_matches)

lemma alphabet_windows:
  "map (\<lambda>c. (charStart c, charEnd c, chunk_text c))
     [windowChunk ''a b c d e f g h i j k l m n o p q r s t u v w x y'' ''d'' 0 10,
      windowChunk ''a b c d e f g h i j k l m n o p q r s t u v w x y'' ''d'' 7 17,
      windowChunk ''a b c d e f g h i j k l m n o p q r s t u v w x y'' ''d'' 14 24,
      windowChunk ''a b c d e f g h i j k l m n o p q r s t u v w x y'' ''d'' 21 25]
   = [(0, 19, ''a b c d e f g h i j''), (14, 33, ''h i j k l m n o p q''),
      (28, 47, ''o p q r s t u v w x''), (42, 49, ''v w x y'')]"
  by (simp add: windowChunk_def alphabet_matches mkChunk_def slice_def)

theorem chunkByTokens_25_tokens_witness:
  "length (matchAllNonSpace 0 ''a b c d e f g h i j k l m n o p q r s t u v w x y'') = 25
   \<and> (case chunkByTokens ''a b c d e f g h i j k l m n o p q r s t u v w x y'' ''d'' 10 3 of
        Inl e \<Rightarrow> False
      | Inr cs \<Rightarrow> map (\<lambda>c. (charStart c, charEnd c, chunk_text c)) cs
                 = [(0, 19, ''a b c d e f g h i j''), (14, 33, ''h i j k l m n o p q''),
                    (28, 47, ''o p q r s t u v w x''), (42, 49, ''v w x y'')])"
  using chunkByTokens_25_tokens[OF alphabet_tokens, of "''d''"] alphabet_tokens alphabet_windows
  by simp



section \<open>Paragraphs of a text\<close>











lemma slice_nth: "a \<le> p \<Longrightarrow> p < e \<Longrightarrow> e \<le> length s \<Longrightarrow> slice s a e ! (p - a) = s ! p"
  by (simp add: slice_def)




section \<open>Packing sentences and paragraphs\<close>















lemma two_paragraphs_chunks:
  "chunkBySentencesParagraphs (Some (\<lambda>t. [(t, 0)])) [CHR ''a'', CHR 0x0A, CHR 0x0A, CHR ''b''] ''d'' 1 0
   = [\<lparr>chunk_id = ''d:0-1'', chunk_docId = ''d'', chunk_text = ''a'', charStart = 0, charEnd = 1\<rparr>,
      \<lparr>chunk_id = ''d:3-4'', chunk_docId = ''d'', chunk_text = ''b'', charStart = 3, charEnd = 4\<rparr>]"
  by code_simp


text \<open>
  The spans of \<open>chunkRecursive\<close> are not offsets into the document: a buffer starts at
  \<^verbatim>\<open>p.start\<close>, which counts from the start of the section, so the chunk of a second
  section starts at 0 again. Here the last characters of the text lie in no span.
\<close>

lemma chunkRecursive_section_offsets:
  "map (\<lambda>c. (charStart c, charEnd c, chunk_text c))
     (chunkRecursive None (''intro'' @ [CHR 0x0A] @ ''# Heading'' @ [CHR 0x0A] @ ''body'') ''d'' 800)
   = [(0, 6, ''intro''), (0, 14, ''# Heading'' @ [CHR 0x0A] @ ''body'')]"
  by code_simp

end
